theory Spec2Isabelle
  imports Main
begin

section \<open>The database as the module sees it\<close>

text \<open>
  The module \<^verbatim>\<open>isso/db/__init__.py\<close> holds three classes: \<^verbatim>\<open>Transaction\<close>, the
  per-thread connection pool \<^verbatim>\<open>SQLite3\<close> and the schema \<^verbatim>\<open>Adapter\<close> with its
  migrations. They talk to the \<^verbatim>\<open>sqlite3\<close> library through \<^verbatim>\<open>connect\<close>,
  \<^verbatim>\<open>execute\<close>, \<^verbatim>\<open>commit\<close>, \<^verbatim>\<open>rollback\<close>, \<^verbatim>\<open>close\<close> and the attribute
  \<^verbatim>\<open>isolation_level\<close>. The library is not part of the repository; it is modelled
  below on the statements this module issues, with the engine's transaction
  semantics: a statement runs in the open transaction when there is one, and
  directly on the file otherwise (the pool opens every connection with
  \<^verbatim>\<open>isolation_level=None\<close>); \<^verbatim>\<open>PRAGMA user_version = n\<close> is part of the open
  transaction like any other write. The one COMMIT the library issues on its own
  is that of the setter of \<^verbatim>\<open>isolation_level\<close>, when the level is set to
  \<^verbatim>\<open>None\<close> while a transaction is open. BEGIN IMMEDIATE, COMMIT and ROLLBACK can
  be refused by the engine (a locked database, an I/O error).
  Calls to the logger write no database state and are left out, and with them the
  counter \<^verbatim>\<open>total_changes\<close> that only the logger reads.
\<close>

datatype error =
    OperationalError string
  | ProgrammingError string
  | AttributeError string
  | TypeError string
  | IndexError string
  | Raised string

text \<open>SQLite values: NULL, integers, text and blobs.\<close>

datatype val = VNull | VInt int | VText string | VBlob string

text \<open>
  A row of the table \<^verbatim>\<open>comments\<close>. The module reads and writes the columns
  \<^verbatim>\<open>id\<close>, \<^verbatim>\<open>parent\<close> and \<^verbatim>\<open>voters\<close>; the remaining columns travel in \<open>other\<close>.
\<close>

record comment =
  cid :: int
  parent :: val
  voters :: val
  other :: "val list"

text \<open>
  The database file: the schema version (\<^verbatim>\<open>PRAGMA user_version\<close>), the three core
  tables (\<open>None\<close> while a table does not exist) and whether the trigger
  \<^verbatim>\<open>remove_stale_threads\<close> is installed.
\<close>

record db =
  user_version :: int
  threads :: "val list list option"
  comments :: "comment list option"
  preferences :: "(val \<times> val) list option"
  remove_stale_threads :: bool

text \<open>The statements of the module, after the text of the SQL is recognised.\<close>

datatype stmt =
    SelectCoreTables
  | GetVersion
  | SetVersion int
  | UpdateVoters val
  | UpdatePreference val val
  | SelectRoots
  | SelectChildren val
  | UpdateParent val val
  | CreateTrigger

definition core_tables_sql :: string where
  "core_tables_sql =
     ''SELECT name FROM sqlite_master   WHERE type='table' AND name IN ('threads', 'comments', 'preferences')''"

definition trigger_sql :: "string list" where
  "trigger_sql =
     [''CREATE TRIGGER IF NOT EXISTS remove_stale_threads'',
      ''AFTER DELETE ON comments'',
      ''BEGIN'',
      ''    DELETE FROM threads WHERE id NOT IN (SELECT tid FROM comments);'',
      ''END'']"

text \<open>\<^verbatim>\<open>' '.join(sql)\<close>\<close>

fun join_space :: "string list \<Rightarrow> string" where
  "join_space [] = []"
| "join_space [f] = f"
| "join_space (f # g # fs) = f @ '' '' @ join_space (g # fs)"

definition bindings :: error where
  "bindings = ProgrammingError ''Incorrect number of bindings supplied.''"

text \<open>
  Recognising a statement and its bound arguments. A text this module never
  issues is outside the model and is refused.
\<close>

definition parse :: "string \<Rightarrow> val list \<Rightarrow> error + stmt" where
  "parse sql args =
     (if sql = ''PRAGMA user_version'' then
        (case args of [] \<Rightarrow> Inr GetVersion | _ \<Rightarrow> Inl bindings)
      else if sql = ''PRAGMA user_version = 1'' then
        (case args of [] \<Rightarrow> Inr (SetVersion 1) | _ \<Rightarrow> Inl bindings)
      else if sql = ''PRAGMA user_version = 2'' then
        (case args of [] \<Rightarrow> Inr (SetVersion 2) | _ \<Rightarrow> Inl bindings)
      else if sql = ''PRAGMA user_version = 3'' then
        (case args of [] \<Rightarrow> Inr (SetVersion 3) | _ \<Rightarrow> Inl bindings)
      else if sql = ''UPDATE comments SET voters=?'' then
        (case args of [v] \<Rightarrow> Inr (UpdateVoters v) | _ \<Rightarrow> Inl bindings)
      else if sql = ''UPDATE preferences SET value=? WHERE key=?'' then
        (case args of [v, k] \<Rightarrow> Inr (UpdatePreference v k) | _ \<Rightarrow> Inl bindings)
      else if sql = ''SELECT id FROM comments WHERE parent IS NULL'' then
        (case args of [] \<Rightarrow> Inr SelectRoots | _ \<Rightarrow> Inl bindings)
      else if sql = ''SELECT id FROM comments WHERE parent=?'' then
        (case args of [p] \<Rightarrow> Inr (SelectChildren p) | _ \<Rightarrow> Inl bindings)
      else if sql = ''UPDATE comments SET parent=? WHERE id=?'' then
        (case args of [p, n] \<Rightarrow> Inr (UpdateParent p n) | _ \<Rightarrow> Inl bindings)
      else if sql = core_tables_sql then
        (case args of [] \<Rightarrow> Inr SelectCoreTables | _ \<Rightarrow> Inl bindings)
      else if sql = join_space trigger_sql then
        (case args of [] \<Rightarrow> Inr CreateTrigger | _ \<Rightarrow> Inl bindings)
      else Inl (OperationalError ''statement outside the model''))"

definition no_table :: "string \<Rightarrow> error" where
  "no_table t = OperationalError (''no such table: '' @ t)"

text \<open>
  What a statement does to a database: the rows it returns and the database
  after it. A comparison with NULL selects no row.
\<close>

fun sem :: "stmt \<Rightarrow> db \<Rightarrow> error + (val list list \<times> db)" where
  "sem SelectCoreTables d =
     Inr ((if threads d = None then [] else [[VText ''threads'']]) @
          (if comments d = None then [] else [[VText ''comments'']]) @
          (if preferences d = None then [] else [[VText ''preferences'']]), d)"
| "sem GetVersion d = Inr ([[VInt (user_version d)]], d)"
| "sem (SetVersion n) d = Inr ([], d\<lparr>user_version := n\<rparr>)"
| "sem (UpdateVoters v) d =
     (case comments d of
        None \<Rightarrow> Inl (no_table ''comments'')
      | Some rows \<Rightarrow> Inr ([], d\<lparr>comments := Some (map (\<lambda>r. r\<lparr>voters := v\<rparr>) rows)\<rparr>))"
| "sem (UpdatePreference v k) d =
     (case preferences d of
        None \<Rightarrow> Inl (no_table ''preferences'')
      | Some kvs \<Rightarrow>
          Inr ([], d\<lparr>preferences :=
                      Some (map (\<lambda>(k', v'). if k \<noteq> VNull \<and> k' = k then (k', v) else (k', v')) kvs)\<rparr>))"
| "sem SelectRoots d =
     (case comments d of
        None \<Rightarrow> Inl (no_table ''comments'')
      | Some rows \<Rightarrow> Inr (map (\<lambda>r. [VInt (cid r)]) (filter (\<lambda>r. parent r = VNull) rows), d))"
| "sem (SelectChildren p) d =
     (case comments d of
        None \<Rightarrow> Inl (no_table ''comments'')
      | Some rows \<Rightarrow>
          Inr (map (\<lambda>r. [VInt (cid r)]) (filter (\<lambda>r. p \<noteq> VNull \<and> parent r = p) rows), d))"
| "sem (UpdateParent p n) d =
     (case comments d of
        None \<Rightarrow> Inl (no_table ''comments'')
      | Some rows \<Rightarrow>
          Inr ([], d\<lparr>comments :=
                      Some (map (\<lambda>r. if VInt (cid r) = n then r\<lparr>parent := p\<rparr> else r) rows)\<rparr>))"
| "sem CreateTrigger d =
     (case comments d of
        None \<Rightarrow> Inl (no_table ''main.comments'')
      | Some _ \<Rightarrow> Inr ([], d\<lparr>remove_stale_threads := True\<rparr>))"

section \<open>A connection of the sqlite3 library\<close>

text \<open>
  The connection object: the attribute \<^verbatim>\<open>isolation_level\<close>, the uncommitted
  database while a transaction is open, and whether the handle was closed.
  \<open>faults\<close> is what the storage engine does with the coming BEGIN IMMEDIATE,
  COMMIT and ROLLBACK statements on this handle, one entry for each in turn:
  \<open>True\<close> for a statement it refuses (the database is locked by another writer,
  the disk is full, an I/O error), \<open>False\<close> for one that goes through; past the
  end of the list every statement goes through. The code has no influence on it.
  A \<open>conn\<close> is a handle together with the database file it is attached to.
\<close>

record handle =
  isolation_level :: "string option"
  pending :: "db option"
  closed :: bool
  faults :: "bool list"

record conn = handle +
  disk :: db

definition attach :: "db \<Rightarrow> handle \<Rightarrow> conn" where
  "attach d h =
     \<lparr>isolation_level = isolation_level h, pending = pending h, closed = closed h,
      faults = faults h, disk = d\<rparr>"

definition detach :: "conn \<Rightarrow> handle" where
  "detach c =
     \<lparr>isolation_level = isolation_level c, pending = pending c, closed = closed c,
      faults = faults c\<rparr>"

text \<open>The database a statement on this connection reads and writes.\<close>

definition view :: "conn \<Rightarrow> db" where
  "view c = (case pending c of None \<Rightarrow> disk c | Some d \<Rightarrow> d)"

definition store :: "conn \<Rightarrow> db \<Rightarrow> conn" where
  "store c d = (case pending c of None \<Rightarrow> c\<lparr>disk := d\<rparr> | Some _ \<Rightarrow> c\<lparr>pending := Some d\<rparr>)"

definition closed_error :: error where
  "closed_error = ProgrammingError ''Cannot operate on a closed database.''"

text \<open>
  Whether the engine refuses the next BEGIN IMMEDIATE, COMMIT or ROLLBACK, and the
  connection once the engine has dealt with that statement.
\<close>

definition refused :: "conn \<Rightarrow> bool" where
  "refused c = (case faults c of [] \<Rightarrow> False | f # _ \<Rightarrow> f)"

definition attempted :: "conn \<Rightarrow> conn" where
  "attempted c = c\<lparr>faults := tl (faults c)\<rparr>"

definition locked_error :: error where
  "locked_error = OperationalError ''database is locked''"

definition io_error :: error where
  "io_error = OperationalError ''disk I/O error''"

text \<open>\<^verbatim>\<open>con.execute(sql, args)\<close>: the rows of the cursor, or the exception raised.\<close>

definition con_execute :: "conn \<Rightarrow> string \<Rightarrow> val list \<Rightarrow> (error + val list list) \<times> conn" where
  "con_execute c sql args =
     (if closed c then (Inl closed_error, c)
      else if sql = ''BEGIN IMMEDIATE'' then
        (case pending c of
           Some _ \<Rightarrow> (Inl (OperationalError ''cannot start a transaction within a transaction''), c)
         | None \<Rightarrow>
             if refused c then (Inl locked_error, attempted c)
             else (Inr [], (attempted c)\<lparr>pending := Some (disk c)\<rparr>))
      else
        (case parse sql args of
           Inl e \<Rightarrow> (Inl e, c)
         | Inr st \<Rightarrow>
             (case sem st (view c) of
                Inl e \<Rightarrow> (Inl e, c)
              | Inr (rows, d) \<Rightarrow> (Inr rows, store c d))))"

text \<open>
  \<^verbatim>\<open>con.commit()\<close> and \<^verbatim>\<open>con.rollback()\<close>: with no transaction open they do
  nothing; with one open they run COMMIT or ROLLBACK, and when the engine refuses
  it they raise and the transaction stays open.
\<close>

definition con_commit :: "conn \<Rightarrow> (error + unit) \<times> conn" where
  "con_commit c =
     (if closed c then (Inl closed_error, c)
      else
        (case pending c of
           None \<Rightarrow> (Inr (), c)
         | Some d \<Rightarrow>
             if refused c then (Inl io_error, attempted c)
             else (Inr (), (attempted c)\<lparr>pending := None, disk := d\<rparr>)))"

definition con_rollback :: "conn \<Rightarrow> (error + unit) \<times> conn" where
  "con_rollback c =
     (if closed c then (Inl closed_error, c)
      else
        (case pending c of
           None \<Rightarrow> (Inr (), c)
         | Some d \<Rightarrow>
             if refused c then (Inl io_error, attempted c)
             else (Inr (), (attempted c)\<lparr>pending := None\<rparr>)))"

text \<open>
  \<^verbatim>\<open>con.isolation_level = level\<close>. The attribute is a property of the library:
  its setter stores the level, and for \<^verbatim>\<open>None\<close> it then commits, as
  \<^verbatim>\<open>con.commit()\<close> does, so that a transaction still open is committed; an
  exception of that COMMIT leaves the setter.
\<close>

definition set_isolation_level :: "string option \<Rightarrow> conn \<Rightarrow> (error + unit) \<times> conn" where
  "set_isolation_level level c =
     (case level of
        None \<Rightarrow> con_commit (c\<lparr>isolation_level := None\<rparr>)
      | Some l \<Rightarrow> (Inr (), c\<lparr>isolation_level := Some l\<rparr>))"

section \<open>Transaction\<close>

text \<open>
  \<^verbatim>\<open>__enter__\<close> keeps the isolation level in \<^verbatim>\<open>_orig\<close>, sets it to IMMEDIATE and
  begins; an exception of the BEGIN leaves the method before anything is returned.
\<close>

definition transaction_enter :: "conn \<Rightarrow> (error + string option) \<times> conn" where
  "transaction_enter c =
     (let orig = isolation_level c
      in case set_isolation_level (Some ''IMMEDIATE'') c of
           (Inl e, c1) \<Rightarrow> (Inl e, c1)
         | (Inr _, c1) \<Rightarrow>
             (case con_execute c1 ''BEGIN IMMEDIATE'' [] of
                (Inl e, c2) \<Rightarrow> (Inl e, c2)
              | (Inr _, c2) \<Rightarrow> (Inr orig, c2)))"

text \<open>
  \<^verbatim>\<open>__exit__\<close>: rollback when the block raised (\<open>exc\<close>), commit otherwise, and in a
  \<^verbatim>\<open>finally\<close> the isolation level is set back, whatever commit or rollback did.
  An exception of the assignment in \<^verbatim>\<open>finally\<close> takes the place of the one of
  commit or rollback; without it that one goes on.
\<close>

definition transaction_exit :: "string option \<Rightarrow> bool \<Rightarrow> conn \<Rightarrow> (error + unit) \<times> conn" where
  "transaction_exit orig exc c =
     (case (if exc then con_rollback c else con_commit c) of
        (r, c1) \<Rightarrow>
          (case set_isolation_level orig c1 of
             (Inl e, c2) \<Rightarrow> (Inl e, c2)
           | (Inr _, c2) \<Rightarrow> (r, c2)))"

text \<open>
  Leaving the \<^verbatim>\<open>with\<close> statement with the outcome of its block. \<^verbatim>\<open>__exit__\<close>
  returns nothing, so an exception of the block is raised again after it; an
  exception of \<^verbatim>\<open>__exit__\<close> itself takes its place.
\<close>

definition leave :: "string option \<Rightarrow> (error + 'a) \<times> conn \<Rightarrow> (error + 'a) \<times> conn" where
  "leave orig out =
     (case out of
        (Inl e, c) \<Rightarrow>
          (case transaction_exit orig True c of
             (Inl e', c') \<Rightarrow> (Inl e', c')
           | (Inr _, c') \<Rightarrow> (Inl e, c'))
      | (Inr v, c) \<Rightarrow>
          (case transaction_exit orig False c of
             (Inl e', c') \<Rightarrow> (Inl e', c')
           | (Inr _, c') \<Rightarrow> (Inr v, c')))"

text \<open>
  \<^verbatim>\<open>with Transaction(con) as con: body\<close>. A block may loop; \<open>None\<close> is a block
  that never returns.
\<close>

definition transaction ::
  "conn \<Rightarrow> (conn \<Rightarrow> ((error + 'a) \<times> conn) option) \<Rightarrow> ((error + 'a) \<times> conn) option" where
  "transaction c body =
     (case transaction_enter c of
        (Inl e, c1) \<Rightarrow> Some (Inl e, c1)
      | (Inr orig, c1) \<Rightarrow> map_option (leave orig) (body c1))"

text \<open>
  A block that works on the connection it is given through \<^verbatim>\<open>execute\<close> alone:
  it returns, raises, or executes a statement and goes on with the rows.
\<close>

datatype 'a block =
    Done 'a
  | Raise error
  | Exec string "val list" "val list list \<Rightarrow> 'a block"

primrec run_block :: "'a block \<Rightarrow> conn \<Rightarrow> (error + 'a) \<times> conn" where
  "run_block (Done v) c = (Inr v, c)"
| "run_block (Raise e) c = (Inl e, c)"
| "run_block (Exec sql args k) c =
     (case con_execute c sql args of
        (Inl e, c1) \<Rightarrow> (Inl e, c1)
      | (Inr rows, c1) \<Rightarrow> run_block (k rows) c1)"

section \<open>SQLite3, the pool\<close>

text \<open>
  One thread's view of the pool: the database file at the path \<^verbatim>\<open>self.db\<close> and
  the thread-local attribute \<^verbatim>\<open>self.local.conn\<close>, which is missing before the
  first \<^verbatim>\<open>connect\<close>, \<^verbatim>\<open>None\<close> after \<^verbatim>\<open>close\<close>, and a connection otherwise. The
  lock is taken and released within \<^verbatim>\<open>connect\<close> and \<^verbatim>\<open>close\<close>; with one thread
  it changes nothing.
\<close>

datatype slot = Unset | IsNone | Open handle

record pool =
  db_file :: db
  local_conn :: slot

text \<open>\<^verbatim>\<open>sqlite3.connect(self.db, isolation_level=None)\<close>\<close>

definition fresh :: handle where
  "fresh = \<lparr>isolation_level = None, pending = None, closed = False, faults = []\<rparr>"

definition connect :: "pool \<Rightarrow> pool" where
  "connect p = p\<lparr>local_conn := Open fresh\<rparr>"

text \<open>
  \<^verbatim>\<open>self.local.conn.close(); self.local.conn = None\<close>. Without the attribute, and
  on \<^verbatim>\<open>None\<close>, the first statement raises AttributeError and the second is not
  reached.
\<close>

definition close :: "pool \<Rightarrow> (error + unit) \<times> pool" where
  "close p =
     (case local_conn p of
        Unset \<Rightarrow> (Inl (AttributeError ''conn''), p)
      | IsNone \<Rightarrow> (Inl (AttributeError ''close''), p)
      | Open h \<Rightarrow> (Inr (), p\<lparr>local_conn := IsNone\<rparr>))"

text \<open>The property \<^verbatim>\<open>connection\<close>: the thread's handle, opened when there is none.\<close>

definition connection :: "pool \<Rightarrow> handle \<times> pool" where
  "connection p =
     (case local_conn p of
        Open h \<Rightarrow> (h, p)
      | _ \<Rightarrow> (fresh, connect p))"

text \<open>
  Running an operation of the library on the handle of the slot: the handle is an
  object, so what the operation does to it is seen through the slot afterwards.
\<close>

definition on_handle ::
  "pool \<Rightarrow> handle \<Rightarrow> (conn \<Rightarrow> ('r \<times> conn) option) \<Rightarrow> ('r \<times> pool) option" where
  "on_handle p h f =
     map_option (\<lambda>(r, c). (r, p\<lparr>db_file := disk c, local_conn := Open (detach c)\<rparr>))
       (f (attach (db_file p) h))"

datatype sql = Str string | Frags "string list"

definition execute :: "pool \<Rightarrow> sql \<Rightarrow> val list \<Rightarrow> (error + val list list) \<times> pool" where
  "execute p sql args =
     (let q = (case sql of Frags fs \<Rightarrow> join_space fs | Str s \<Rightarrow> s)
      in case connection p of
           (h, p1) \<Rightarrow>
             (case con_execute (attach (db_file p1) h) q args of
                (r, c) \<Rightarrow> (r, p1\<lparr>db_file := disk c, local_conn := Open (detach c)\<rparr>)))"

text \<open>\<^verbatim>\<open>with self.connection.transaction as con: body\<close>, on the pool.\<close>

definition pool_transaction ::
  "pool \<Rightarrow> (conn \<Rightarrow> ((error + 'a) \<times> conn) option) \<Rightarrow> ((error + 'a) \<times> pool) option" where
  "pool_transaction p body =
     (case connection p of (h, p1) \<Rightarrow> on_handle p1 h (\<lambda>c. transaction c body))"

section \<open>Adapter\<close>

text \<open>
  What the adapter takes from outside the module: the configuration (\<^verbatim>\<open>conf\<close>,
  read through \<^verbatim>\<open>has_option\<close> and \<^verbatim>\<open>get\<close>), the array of the Bloom filter built
  from \<^verbatim>\<open>["127.0.0.0"]\<close>, and the order in which Python walks the keys of a
  dictionary and the elements of a set, each as a function of the sequence in
  which they were put in.
\<close>

record env =
  conf :: "string \<times> string \<Rightarrow> string option"
  bloom :: string
  keys_order :: "val list \<Rightarrow> val list"
  set_order :: "val list \<Rightarrow> val list"

text \<open>Sequencing with exceptions: the first exception ends the sequence.\<close>

definition andthen ::
  "('s \<Rightarrow> ((error + 'a) \<times> 's) option) \<Rightarrow> ('a \<Rightarrow> 's \<Rightarrow> ((error + 'b) \<times> 's) option) \<Rightarrow>
   's \<Rightarrow> ((error + 'b) \<times> 's) option" where
  "andthen m f s =
     (case m s of
        None \<Rightarrow> None
      | Some (Inl e, s1) \<Rightarrow> Some (Inl e, s1)
      | Some (Inr v, s1) \<Rightarrow> f v s1)"

definition skip :: "'s \<Rightarrow> ((error + unit) \<times> 's) option" where
  "skip s = Some (Inr (), s)"

text \<open>\<^verbatim>\<open>Adapter.execute\<close> hands over to the pool.\<close>

definition adapter_execute :: "pool \<Rightarrow> sql \<Rightarrow> val list \<Rightarrow> (error + val list list) \<times> pool" where
  "adapter_execute p sql args = execute p sql args"

text \<open>\<^verbatim>\<open>self.execute("PRAGMA user_version").fetchone()[0]\<close>\<close>

definition version :: "pool \<Rightarrow> (error + int) \<times> pool" where
  "version p =
     (case adapter_execute p (Str ''PRAGMA user_version'') [] of
        (Inl e, p1) \<Rightarrow> (Inl e, p1)
      | (Inr rows, p1) \<Rightarrow>
          (case rows of
             [] \<Rightarrow> (Inl (TypeError ''NoneType''), p1)
           | [] # _ \<Rightarrow> (Inl (IndexError ''tuple index out of range''), p1)
           | (VInt n # _) # _ \<Rightarrow> (Inr n, p1)
           | _ \<Rightarrow> (Inl (TypeError ''user_version''), p1)))"

text \<open>\<^verbatim>\<open>first = lambda rv: list(map(operator.itemgetter(0), rv))\<close>\<close>

fun first :: "val list list \<Rightarrow> error + val list" where
  "first [] = Inr []"
| "first ([] # rs) = Inl (IndexError ''tuple index out of range'')"
| "first ((v # _) # rs) = (case first rs of Inl e \<Rightarrow> Inl e | Inr vs \<Rightarrow> Inr (v # vs))"

text \<open>
  \<^verbatim>\<open>flattened = defaultdict(set)\<close>: the keys in the order of their first use,
  each with the sequence of elements put into its set.
\<close>

fun lookup :: "(val \<times> val list) list \<Rightarrow> val \<Rightarrow> val list" where
  "lookup [] k = []"
| "lookup ((k', s) # fl) k = (if k' = k then s else lookup fl k)"

fun update_set :: "val \<Rightarrow> val list \<Rightarrow> (val \<times> val list) list \<Rightarrow> (val \<times> val list) list" where
  "update_set k rv [] = [(k, rv)]"
| "update_set k rv ((k', s) # fl) =
     (if k' = k then (k', s @ rv) # fl else (k', s) # update_set k rv fl)"

text \<open>
  The inner loop of the step from 2 to 3:
  \<^verbatim>\<open>while ids: rv = first(con.execute(..., (ids.pop(), ))); ids.extend(rv); flattened[id].update(set(rv))\<close>
\<close>

partial_function (option) collect ::
  "conn \<Rightarrow> val \<Rightarrow> val list \<Rightarrow> (val \<times> val list) list \<Rightarrow>
   ((error + (val \<times> val list) list) \<times> conn) option" where
  "collect con root ids flattened =
     (if ids = [] then Some (Inr flattened, con)
      else
        (case con_execute con ''SELECT id FROM comments WHERE parent=?'' [last ids] of
           (Inl e, con1) \<Rightarrow> Some (Inl e, con1)
         | (Inr rows, con1) \<Rightarrow>
             (case first rows of
                Inl e \<Rightarrow> Some (Inl e, con1)
              | Inr rv \<Rightarrow> collect con1 root (butlast ids @ rv) (update_set root rv flattened))))"

declare collect.simps [code]

text \<open>\<^verbatim>\<open>for id in top: ids = [id, ]; while ids: ...\<close>\<close>

fun collect_top ::
  "conn \<Rightarrow> val list \<Rightarrow> (val \<times> val list) list \<Rightarrow>
   ((error + (val \<times> val list) list) \<times> conn) option" where
  "collect_top con [] flattened = Some (Inr flattened, con)"
| "collect_top con (root # tops) flattened =
     (case collect con root [root] flattened of
        None \<Rightarrow> None
      | Some (Inl e, con1) \<Rightarrow> Some (Inl e, con1)
      | Some (Inr flattened1, con1) \<Rightarrow> collect_top con1 tops flattened1)"

text \<open>\<^verbatim>\<open>for n in flattened[id]: con.execute("UPDATE comments SET parent=? WHERE id=?", (id, n))\<close>\<close>

fun update_children :: "conn \<Rightarrow> val \<Rightarrow> val list \<Rightarrow> (error + unit) \<times> conn" where
  "update_children con root [] = (Inr (), con)"
| "update_children con root (n # ns) =
     (case con_execute con ''UPDATE comments SET parent=? WHERE id=?'' [root, n] of
        (Inl e, con1) \<Rightarrow> (Inl e, con1)
      | (Inr _, con1) \<Rightarrow> update_children con1 root ns)"

text \<open>\<^verbatim>\<open>for id in flattened.keys(): ...\<close>\<close>

fun update_roots ::
  "env \<Rightarrow> conn \<Rightarrow> (val \<times> val list) list \<Rightarrow> val list \<Rightarrow> (error + unit) \<times> conn" where
  "update_roots env con flattened [] = (Inr (), con)"
| "update_roots env con flattened (root # ks) =
     (case update_children con root (set_order env (lookup flattened root)) of
        (Inl e, con1) \<Rightarrow> (Inl e, con1)
      | (Inr _, con1) \<Rightarrow> update_roots env con1 flattened ks)"

subsection \<open>The three steps, each the block of one transaction\<close>

definition set_version :: "string \<Rightarrow> conn \<Rightarrow> (error + unit) \<times> conn" where
  "set_version sql con =
     (case con_execute con sql [] of
        (Inl e, con1) \<Rightarrow> (Inl e, con1)
      | (Inr _, con1) \<Rightarrow> (Inr (), con1))"

definition step_0_1 :: "env \<Rightarrow> conn \<Rightarrow> (error + unit) \<times> conn" where
  "step_0_1 env con =
     (case con_execute con ''UPDATE comments SET voters=?'' [VBlob (bloom env)] of
        (Inl e, con1) \<Rightarrow> (Inl e, con1)
      | (Inr _, con1) \<Rightarrow> set_version ''PRAGMA user_version = 1'' con1)"

definition step_1_2 :: "env \<Rightarrow> conn \<Rightarrow> (error + unit) \<times> conn" where
  "step_1_2 env con =
     (case conf env (''general'', ''session-key'') of
        None \<Rightarrow> set_version ''PRAGMA user_version = 2'' con
      | Some key \<Rightarrow>
          (case con_execute con ''UPDATE preferences SET value=? WHERE key=?''
                  [VText key, VText ''session-key''] of
             (Inl e, con1) \<Rightarrow> (Inl e, con1)
           | (Inr _, con1) \<Rightarrow> set_version ''PRAGMA user_version = 2'' con1))"

definition step_2_3 :: "env \<Rightarrow> conn \<Rightarrow> ((error + unit) \<times> conn) option" where
  "step_2_3 env con =
     (case con_execute con ''SELECT id FROM comments WHERE parent IS NULL'' [] of
        (Inl e, con1) \<Rightarrow> Some (Inl e, con1)
      | (Inr rows, con1) \<Rightarrow>
          (case first rows of
             Inl e \<Rightarrow> Some (Inl e, con1)
           | Inr tops \<Rightarrow>
               (case collect_top con1 tops [] of
                  None \<Rightarrow> None
                | Some (Inl e, con2) \<Rightarrow> Some (Inl e, con2)
                | Some (Inr flattened, con2) \<Rightarrow>
                    (case update_roots env con2 flattened (keys_order env (map fst flattened)) of
                       (Inl e, con3) \<Rightarrow> Some (Inl e, con3)
                     | (Inr _, con3) \<Rightarrow> Some (set_version ''PRAGMA user_version = 3'' con3)))))"

subsection \<open>migrate\<close>

text \<open>\<^verbatim>\<open>if self.version == n: with self.connection.transaction as con: ...\<close>\<close>

definition when_version ::
  "int \<Rightarrow> (conn \<Rightarrow> ((error + unit) \<times> conn) option) \<Rightarrow> pool \<Rightarrow> ((error + unit) \<times> pool) option" where
  "when_version n body =
     andthen (\<lambda>p. Some (version p))
       (\<lambda>v. if v = n then (\<lambda>p. pool_transaction p body) else skip)"

text \<open>
  \<^verbatim>\<open>migrate(self, to)\<close>. The version is read again for the log line and before
  each step.
\<close>

definition migrate :: "env \<Rightarrow> int \<Rightarrow> pool \<Rightarrow> ((error + unit) \<times> pool) option" where
  "migrate env to =
     andthen (\<lambda>p. Some (version p))
       (\<lambda>v. if v \<ge> to then skip
            else
              andthen (\<lambda>p. Some (version p))
                (\<lambda>_. andthen (when_version 0 (\<lambda>c. Some (step_0_1 env c)))
                  (\<lambda>_. andthen (when_version 1 (\<lambda>c. Some (step_1_2 env c)))
                    (\<lambda>_. when_version 2 (step_2_3 env)))))"

subsection \<open>Construction\<close>

definition MAX_VERSION :: int where
  "MAX_VERSION = 3"

text \<open>\<^verbatim>\<open>.fetchone()\<close>\<close>

definition fetchone :: "val list list \<Rightarrow> val list option" where
  "fetchone rows = (case rows of [] \<Rightarrow> None | r # _ \<Rightarrow> Some r)"

definition discard ::
  "('s \<Rightarrow> (error + 'a) \<times> 's) \<Rightarrow> 's \<Rightarrow> ((error + unit) \<times> 's) option" where
  "discard f s = (case f s of (Inl e, s1) \<Rightarrow> Some (Inl e, s1) | (Inr _, s1) \<Rightarrow> Some (Inr (), s1))"

text \<open>
  \<^verbatim>\<open>Adapter.__init__\<close>. The constructors \<^verbatim>\<open>Preferences(self)\<close>, \<^verbatim>\<open>Threads(self)\<close>,
  \<^verbatim>\<open>Comments(self)\<close> and \<^verbatim>\<open>Guard(self)\<close> belong to other modules; \<open>collaborators\<close>
  is what they do to the pool, between the look into the catalog and the
  decision on its result.
\<close>

definition adapter_init ::
  "env \<Rightarrow> (pool \<Rightarrow> ((error + unit) \<times> pool) option) \<Rightarrow> pool \<Rightarrow> ((error + unit) \<times> pool) option" where
  "adapter_init env collaborators =
     andthen (\<lambda>p. Some (adapter_execute p (Frags [core_tables_sql]) []))
       (\<lambda>rows. andthen collaborators
         (\<lambda>_. andthen
                 (if fetchone rows = None
                  then discard (\<lambda>p. adapter_execute p (Str ''PRAGMA user_version = 3'') [])
                  else migrate env MAX_VERSION)
           (\<lambda>_. discard (\<lambda>p. adapter_execute p (Frags trigger_sql) []))))"

section \<open>Notions of the specification\<close>

text \<open>Fragments joined with a single space between neighbours.\<close>

definition joined_with_space :: "string list \<Rightarrow> string" where
  "joined_with_space fs =
     (case fs of [] \<Rightarrow> [] | f # gs \<Rightarrow> f @ concat (map (\<lambda>g. CHR '' '' # g) gs))"

text \<open>
  The handle a call on the pool works on, the pool once that handle sits in the
  slot, and the database the thread reads through it.
\<close>

definition handle_of :: "pool \<Rightarrow> handle" where
  "handle_of p = fst (connection p)"

definition opened :: "pool \<Rightarrow> pool" where
  "opened p = p\<lparr>local_conn := Open (handle_of p)\<rparr>"

definition seen :: "pool \<Rightarrow> db" where
  "seen p = view (attach (db_file p) (handle_of p))"

text \<open>
  The pools a thread can get to through the pool's own operations and through
  \<^verbatim>\<open>migrate\<close>, starting from the pool as \<^verbatim>\<open>SQLite3.__init__\<close> leaves it; another
  process may write the file in between, and the engine may come to refuse
  statements on the handle.
\<close>

inductive reachable :: "pool \<Rightarrow> bool" where
  reachable_init: "reachable \<lparr>db_file = d, local_conn = Unset\<rparr>"
| reachable_connect: "reachable p \<Longrightarrow> reachable (connect p)"
| reachable_close: "reachable p \<Longrightarrow> reachable (snd (close p))"
| reachable_execute: "reachable p \<Longrightarrow> reachable (snd (execute p sql args))"
| reachable_transaction:
    "reachable p \<Longrightarrow> pool_transaction p (\<lambda>c. Some (run_block (b :: unit block) c)) = Some (r, p') \<Longrightarrow>
     reachable p'"
| reachable_migrate: "reachable p \<Longrightarrow> migrate env to p = Some (r, p') \<Longrightarrow> reachable p'"
| reachable_other_writer: "reachable p \<Longrightarrow> reachable (p\<lparr>db_file := d\<rparr>)"
| reachable_faults:
    "reachable p \<Longrightarrow> local_conn p = Open h \<Longrightarrow> reachable (p\<lparr>local_conn := Open (h\<lparr>faults := fs\<rparr>)\<rparr>)"

text \<open>A slot that holds a handle holds one that was not closed.\<close>

definition usable :: "pool \<Rightarrow> bool" where
  "usable p = (case local_conn p of Open h \<Rightarrow> \<not> closed h | _ \<Rightarrow> True)"

text \<open>The connection as \<^verbatim>\<open>__enter__\<close> hands it to the block.\<close>

definition entered :: "conn \<Rightarrow> conn" where
  "entered c = (attempted c)\<lparr>isolation_level := Some ''IMMEDIATE'', pending := Some (disk c)\<rparr>"

text \<open>
  A pool whose slot is filled and the connection behind it are the same thing
  seen from two sides: \<open>conn_of\<close> is the connection a call on the pool works on,
  \<open>pool_of\<close> the pool a connection leaves behind.
\<close>

definition conn_of :: "pool \<Rightarrow> conn" where
  "conn_of p = attach (db_file p) (handle_of p)"

definition pool_of :: "conn \<Rightarrow> pool" where
  "pool_of c = \<lparr>db_file = disk c, local_conn = Open (detach c)\<rparr>"

definition nested_error :: error where
  "nested_error = OperationalError ''cannot start a transaction within a transaction''"

text \<open>
  What every migration step does as the block of its transaction, entered at
  version \<open>n\<close>: it changes nothing but the uncommitted database, and leaves the
  version at \<open>n + 1\<close> when it ends normally and at \<open>n\<close> when it raises.
\<close>

definition step_ok :: "int \<Rightarrow> (conn \<Rightarrow> ((error + unit) \<times> conn) option) \<Rightarrow> bool" where
  "step_ok n body =
     (\<forall>c d. pending c = Some d \<and> \<not> closed c \<and> user_version d = n \<longrightarrow>
        (case body c of
           None \<Rightarrow> True
         | Some (r, c2) \<Rightarrow>
             (\<exists>d2. c2 = c\<lparr>pending := Some d2\<rparr> \<and>
                   user_version d2 = (case r of Inl _ \<Rightarrow> n | Inr _ \<Rightarrow> n + 1))))"

text \<open>The version does not go down, in the file and as the connection reads it.\<close>

definition le_version :: "conn \<Rightarrow> conn \<Rightarrow> bool" where
  "le_version c c1 =
     (user_version (disk c) \<le> user_version (disk c1) \<and> user_version (view c) \<le> user_version (view c1))"

text \<open>The three guarded steps of \<^verbatim>\<open>migrate\<close>, after its early return.\<close>

definition steps :: "env \<Rightarrow> pool \<Rightarrow> ((error + unit) \<times> pool) option" where
  "steps env =
     andthen (when_version 0 (\<lambda>c. Some (step_0_1 env c)))
       (\<lambda>_. andthen (when_version 1 (\<lambda>c. Some (step_1_2 env c)))
         (\<lambda>_. when_version 2 (step_2_3 env)))"

text \<open>
  The ids \<^verbatim>\<open>SELECT id FROM comments WHERE parent=?\<close> returns for \<open>x\<close>: the comments
  whose parent is \<open>x\<close>.
\<close>

definition children :: "comment list \<Rightarrow> val \<Rightarrow> val list" where
  "children rows x = map (\<lambda>r. VInt (cid r)) (filter (\<lambda>r. x \<noteq> VNull \<and> parent r = x) rows)"

text \<open>None of the three core tables is there.\<close>

definition fresh_db :: "db \<Rightarrow> bool" where
  "fresh_db d = (threads d = None \<and> comments d = None \<and> preferences d = None)"

text \<open>
  What \<^verbatim>\<open>UPDATE preferences SET value=? WHERE key=?\<close> with the arguments
  \<open>(key, 'session-key')\<close> does to the rows of \<^verbatim>\<open>preferences\<close>.
\<close>

definition set_session_key :: "string \<Rightarrow> (val \<times> val) list \<Rightarrow> (val \<times> val) list" where
  "set_session_key key kvs =
     map (\<lambda>(k, v). if k = VText ''session-key'' then (k, VText key) else (k, v)) kvs"

text \<open>
  The database the step from 1 to 2 works towards, or the exception of its
  UPDATE.
\<close>

definition session_key_moved :: "env \<Rightarrow> db \<Rightarrow> error + db" where
  "session_key_moved env d =
     (case conf env (''general'', ''session-key'') of
        None \<Rightarrow> Inr (d\<lparr>user_version := 2\<rparr>)
      | Some key \<Rightarrow>
          (case preferences d of
             None \<Rightarrow> Inl (no_table ''preferences'')
           | Some kvs \<Rightarrow> Inr (d\<lparr>preferences := Some (set_session_key key kvs), user_version := 2\<rparr>)))"

text \<open>
  \<open>descendant rows a n\<close>: following the parent links of the table from the
  comment with id \<open>n\<close> leads to \<open>a\<close>, in one step or more.
\<close>

inductive descendant :: "comment list \<Rightarrow> val \<Rightarrow> val \<Rightarrow> bool"
  for rows :: "comment list" and a :: val where
  direct: "r \<in> set rows \<Longrightarrow> parent r = a \<Longrightarrow> a \<noteq> VNull \<Longrightarrow> descendant rows a (VInt (cid r))"
| above: "r \<in> set rows \<Longrightarrow> parent r = m \<Longrightarrow> m \<noteq> VNull \<Longrightarrow> descendant rows a m \<Longrightarrow>
          descendant rows a (VInt (cid r))"

code_pred descendant .

text \<open>The ids \<^verbatim>\<open>SELECT id FROM comments WHERE parent IS NULL\<close> returns.\<close>

definition is_root :: "comment list \<Rightarrow> val \<Rightarrow> bool" where
  "is_root rows R = (R \<in> set (map (\<lambda>r. VInt (cid r)) (filter (\<lambda>r. parent r = VNull) rows)))"

text \<open>
  The inner loop with \<open>ids\<close> on the stack and \<open>P\<close> popped so far: nothing is on
  the stack twice or again, everything on it or popped is the root or has its
  parent popped and descends from the root, and the children of a popped id are
  on the stack or popped.
\<close>

definition ids_of :: "comment list \<Rightarrow> val set" where
  "ids_of rows = (\<lambda>r. VInt (cid r)) ` set rows"

definition walk_inv :: "comment list \<Rightarrow> val \<Rightarrow> val list \<Rightarrow> val set \<Rightarrow> bool" where
  "walk_inv rows root ids P =
     (distinct ids \<and> set ids \<inter> P = {} \<and> root \<in> set ids \<union> P \<and>
      (\<forall>n \<in> set ids \<union> P. n = root \<or> (\<exists>m \<in> P. n \<in> set (children rows m))) \<and>
      (\<forall>m \<in> P. set (children rows m) \<subseteq> set ids \<union> P) \<and>
      (\<forall>n \<in> set ids \<union> P. n = root \<or> descendant rows root n) \<and>
      set ids \<union> P \<subseteq> insert root (ids_of rows))"

text \<open>What \<^verbatim>\<open>UPDATE comments SET parent=? WHERE id=?\<close> with \<open>(k, n)\<close> does to a row.\<close>

definition reparent :: "val \<Rightarrow> val \<Rightarrow> comment \<Rightarrow> comment" where
  "reparent k n r = (if VInt (cid r) = n then r\<lparr>parent := k\<rparr> else r)"

section \<open>Examples\<close>

definition example_row :: "int \<Rightarrow> val \<Rightarrow> comment" where
  "example_row i p = \<lparr>cid = i, parent = p, voters = VBlob ''old'', other = []\<rparr>"

text \<open>The tree \<open>1 \<rightarrow> 2 \<rightarrow> 3 \<rightarrow> 4\<close> and \<open>1 \<rightarrow> 5\<close>, and the lone root \<open>6\<close>.\<close>

definition example_rows :: "comment list" where
  "example_rows =
     [example_row 1 VNull, example_row 2 (VInt 1), example_row 3 (VInt 2),
      example_row 4 (VInt 3), example_row 5 (VInt 1), example_row 6 VNull]"

definition example_db :: "int \<Rightarrow> db" where
  "example_db v =
     \<lparr>user_version = v, threads = Some [], comments = Some example_rows,
      preferences = Some [(VText ''session-key'', VText ''abc'')],
      remove_stale_threads = False\<rparr>"

definition example_env :: env where
  "example_env =
     \<lparr>conf = (\<lambda>k. if k = (''general'', ''session-key'') then Some ''secret'' else None),
      bloom = ''bf'', keys_order = rev, set_order = rev\<rparr>"

definition example_pool :: "int \<Rightarrow> pool" where
  "example_pool v = \<lparr>db_file = example_db v, local_conn = Unset\<rparr>"





text \<open>A database at version 1 whose table \<^verbatim>\<open>preferences\<close> has no row.\<close>

definition empty_preferences_pool :: pool where
  "empty_preferences_pool = \<lparr>db_file = (example_db 1)\<lparr>preferences := Some []\<rparr>, local_conn = Unset\<rparr>"

text \<open>A new database file, and collaborators that create the three tables.\<close>

definition new_pool :: pool where
  "new_pool =
     \<lparr>db_file = \<lparr>user_version = 0, threads = None, comments = None, preferences = None,
                 remove_stale_threads = False\<rparr>,
      local_conn = Unset\<rparr>"

definition example_collaborators :: "pool \<Rightarrow> ((error + unit) \<times> pool) option" where
  "example_collaborators q =
     Some (Inr (), q\<lparr>db_file := (db_file q)\<lparr>threads := Some [], comments := Some [],
                                             preferences := Some []\<rparr>\<rparr>)"

section \<open>The library model: basic facts\<close>

lemma detach_attach: "detach (attach d h) = h"
  by (simp add: detach_def attach_def)

lemma attach_fields:
  "isolation_level (attach d h) = isolation_level h"
  "pending (attach d h) = pending h"
  "closed (attach d h) = closed h"
  "faults (attach d h) = faults h"
  "disk (attach d h) = d"
  by (simp_all add: attach_def)

lemma detach_fields:
  "isolation_level (detach c) = isolation_level c"
  "pending (detach c) = pending c"
  "closed (detach c) = closed c"
  "faults (detach c) = faults c"
  by (simp_all add: detach_def)

lemma attempted_fields:
  "isolation_level (attempted c) = isolation_level c"
  "pending (attempted c) = pending c"
  "closed (attempted c) = closed c"
  "faults (attempted c) = tl (faults c)"
  "disk (attempted c) = disk c"
  by (simp_all add: attempted_def)

lemma refused_update:
  "refused (c\<lparr>isolation_level := l\<rparr>) = refused c"
  "refused (c\<lparr>pending := q\<rparr>) = refused c"
  "refused (c\<lparr>disk := d\<rparr>) = refused c"
  by (simp_all add: refused_def)

lemma attempted_update:
  "attempted (c\<lparr>isolation_level := l\<rparr>) = (attempted c)\<lparr>isolation_level := l\<rparr>"
  "attempted (c\<lparr>pending := q\<rparr>) = (attempted c)\<lparr>pending := q\<rparr>"
  "attempted (c\<lparr>disk := d\<rparr>) = (attempted c)\<lparr>disk := d\<rparr>"
  by (simp_all add: attempted_def)

lemma con_execute_closed: "closed (snd (con_execute c sql args)) = closed c"
  by (simp add: con_execute_def store_def attempted_def split: option.splits sum.splits prod.splits)



lemma run_block_closed: "closed (snd (run_block b c)) = closed c"
proof (induction b arbitrary: c)
  case (Exec sql args k)
  show ?case
    using Exec.IH [OF rangeI] con_execute_closed [of c sql args]
    by (cases "con_execute c sql args") (auto split: sum.splits)
qed simp_all

lemma parse_simps:
  "parse ''PRAGMA user_version'' [] = Inr GetVersion"
  "parse ''PRAGMA user_version = 1'' [] = Inr (SetVersion 1)"
  "parse ''PRAGMA user_version = 2'' [] = Inr (SetVersion 2)"
  "parse ''PRAGMA user_version = 3'' [] = Inr (SetVersion 3)"
  "parse ''UPDATE comments SET voters=?'' [v] = Inr (UpdateVoters v)"
  "parse ''UPDATE preferences SET value=? WHERE key=?'' [v, k] = Inr (UpdatePreference v k)"
  "parse ''SELECT id FROM comments WHERE parent IS NULL'' [] = Inr SelectRoots"
  "parse ''SELECT id FROM comments WHERE parent=?'' [q] = Inr (SelectChildren q)"
  "parse ''UPDATE comments SET parent=? WHERE id=?'' [q, n] = Inr (UpdateParent q n)"
  "parse core_tables_sql [] = Inr SelectCoreTables"
  "parse (join_space trigger_sql) [] = Inr CreateTrigger"
  by (simp_all add: parse_def core_tables_sql_def trigger_sql_def)



section \<open>execute\<close>

lemma join_space_joined: "join_space fs = joined_with_space fs"
  by (induction fs rule: join_space.induct) (simp_all add: joined_with_space_def)

text \<open>
  C9. \<^verbatim>\<open>execute\<close> on a list or tuple of fragments is \<^verbatim>\<open>execute\<close> on the one
  string made of the fragments with a single space between neighbours, for every
  argument tuple; a string goes to the connection's \<^verbatim>\<open>execute\<close> as it is.
\<close>

theorem execute_joins_fragments:
  "execute p (Frags fs) args = execute p (Str (joined_with_space fs)) args \<and>
   execute p (Str s) args =
     (case connection p of
        (h, p1) \<Rightarrow>
          (case con_execute (attach (db_file p1) h) s args of
             (r, c) \<Rightarrow> (r, p1\<lparr>db_file := disk c, local_conn := Open (detach c)\<rparr>)))"
  by (simp add: execute_def join_space_joined)

section \<open>close\<close>

text \<open>
  C8, as the code has it. With a connection in the slot \<^verbatim>\<open>close\<close> raises nothing
  and leaves \<^verbatim>\<open>None\<close> in the slot. Without one (the attribute missing, or
  \<^verbatim>\<open>None\<close> after an earlier \<^verbatim>\<open>close\<close>) it raises AttributeError and the pool stays
  as it was.
\<close>

theorem close_raises_without_handle:
  "(local_conn p = Unset \<or> local_conn p = IsNone \<longrightarrow> (\<exists>m. close p = (Inl (AttributeError m), p))) \<and>
   (\<forall>h. local_conn p = Open h \<longrightarrow> close p = (Inr (), p\<lparr>local_conn := IsNone\<rparr>))"
  by (auto simp: close_def)

theorem close_raises_without_handle_witness:
  "local_conn (connect (example_pool 3)) = Open fresh \<and>
   close (connect (example_pool 3)) = (Inr (), (connect (example_pool 3))\<lparr>local_conn := IsNone\<rparr>)"
  using close_raises_without_handle [of "connect (example_pool 3)"]
  by (simp add: connect_def)

theorem close_silent_counterexample:
  "local_conn (example_pool 3) = Unset \<and>
   fst (close (example_pool 3)) = Inl (AttributeError ''conn'') \<and>
   local_conn (snd (close (connect (example_pool 3)))) = IsNone \<and>
   fst (close (snd (close (connect (example_pool 3))))) = Inl (AttributeError ''close'')"
  by (simp add: close_def connect_def example_pool_def)

section \<open>Transaction: commit, rollback and the isolation level\<close>

lemma transaction_conn:
  "\<not> closed c \<Longrightarrow>
   transaction c body =
     (if pending c \<noteq> None then Some (Inl nested_error, c\<lparr>isolation_level := Some ''IMMEDIATE''\<rparr>)
      else if refused c
      then Some (Inl locked_error, (attempted c)\<lparr>isolation_level := Some ''IMMEDIATE''\<rparr>)
      else map_option (leave (isolation_level c)) (body (entered c)))"
  by (auto simp: transaction_def transaction_enter_def set_isolation_level_def con_execute_def
      entered_def nested_error_def refused_update attempted_update)

text \<open>
  Leaving a block with a transaction open, when the engine lets the ROLLBACK or
  COMMIT of \<^verbatim>\<open>__exit__\<close> through: nothing is left for the setter to commit.
\<close>

lemma leave_through:
  "pending c2 = Some d2 \<Longrightarrow> \<not> closed c2 \<Longrightarrow> \<not> refused c2 \<Longrightarrow>
   leave orig (r, c2) =
     (case r of
        Inl e \<Rightarrow> (Inl e, (attempted c2)\<lparr>pending := None, isolation_level := orig\<rparr>)
      | Inr v \<Rightarrow> (Inr v, (attempted c2)\<lparr>pending := None, disk := d2, isolation_level := orig\<rparr>))"
  by (cases orig)
    (simp_all add: leave_def transaction_exit_def set_isolation_level_def con_rollback_def
      con_commit_def attempted_fields split: sum.splits)

text \<open>
  And when the engine refuses it: \<^verbatim>\<open>rollback\<close> or \<^verbatim>\<open>commit\<close> raises with the
  transaction still open. Setting the level back to a string leaves it open;
  setting it back to \<^verbatim>\<open>None\<close> runs a COMMIT, which writes the block's database to
  the file unless the engine refuses that one too.
\<close>

lemma leave_refused:
  "pending c2 = Some d2 \<Longrightarrow> \<not> closed c2 \<Longrightarrow> refused c2 \<Longrightarrow>
   leave orig (r, c2) =
     (Inl io_error,
      case orig of
        Some l \<Rightarrow> (attempted c2)\<lparr>isolation_level := Some l\<rparr>
      | None \<Rightarrow>
          if refused (attempted c2) then (attempted (attempted c2))\<lparr>isolation_level := None\<rparr>
          else (attempted (attempted c2))\<lparr>isolation_level := None, pending := None, disk := d2\<rparr>)"
  by (cases orig; cases r)
    (simp_all add: leave_def transaction_exit_def set_isolation_level_def con_rollback_def
      con_commit_def attempted_fields refused_update attempted_update)





section \<open>The handle behind a call on the pool\<close>

lemma connection_cases:
  "connection p = (handle_of p, opened p)"
  "local_conn p = Open h \<Longrightarrow> handle_of p = h"
  "local_conn p = Unset \<Longrightarrow> handle_of p = fresh"
  "local_conn p = IsNone \<Longrightarrow> handle_of p = fresh"
  by (simp_all add: connection_def handle_of_def opened_def connect_def split: slot.splits)

lemma usable_handle_of: "usable p \<Longrightarrow> \<not> closed (handle_of p)"
  by (cases "local_conn p") (simp_all add: usable_def connection_cases fresh_def)

lemma leave_closed: "closed (snd (leave orig (r, c))) = closed c"
  by (simp add: leave_def transaction_exit_def set_isolation_level_def con_rollback_def
      con_commit_def attempted_def split: sum.splits option.splits prod.splits)

lemma transaction_block_closed:
  "transaction c (\<lambda>x. Some (run_block b x)) = Some (r, c') \<Longrightarrow> closed c' = closed c"
proof -
  assume t: "transaction c (\<lambda>x. Some (run_block b x)) = Some (r, c')"
  obtain r1 c1 where e: "transaction_enter c = (r1, c1)" by (cases "transaction_enter c")
  have c1: "closed c1 = closed c"
    using e con_execute_closed [of "c\<lparr>isolation_level := Some ''IMMEDIATE''\<rparr>" "''BEGIN IMMEDIATE''" "[]"]
    by (auto simp: transaction_enter_def set_isolation_level_def split: prod.splits sum.splits)
  show ?thesis
  proof (cases r1)
    case (Inl e1)
    with t e c1 show ?thesis by (simp add: transaction_def)
  next
    case (Inr orig)
    obtain r2 c2 where rb: "run_block b c1 = (r2, c2)" by (cases "run_block b c1")
    have "closed c2 = closed c1" using run_block_closed [of b c1] rb by simp
    moreover have "closed (snd (leave orig (r2, c2))) = closed c2" by (rule leave_closed)
    ultimately show ?thesis using t e Inr rb c1 by (auto simp: transaction_def)
  qed
qed

lemma parse_not_closed_error: "parse sql args = Inl e \<Longrightarrow> e \<noteq> closed_error"
  by (auto simp: parse_def closed_error_def bindings_def split: if_splits list.splits)

lemma sem_not_closed_error: "sem st d = Inl e \<Longrightarrow> e \<noteq> closed_error"
  by (cases st) (auto simp: closed_error_def no_table_def split: option.splits)

lemma con_execute_not_closed_error:
  "\<not> closed c \<Longrightarrow> fst (con_execute c sql args) \<noteq> Inl closed_error"
  using parse_not_closed_error sem_not_closed_error
  by (auto simp: con_execute_def closed_error_def locked_error_def
      split: option.splits sum.splits prod.splits)

lemma execute_on_handle:
  "execute p sql args =
     (case con_execute (attach (db_file p) (handle_of p))
             (case sql of Frags fs \<Rightarrow> join_space fs | Str s \<Rightarrow> s) args of
        (r, c) \<Rightarrow> (r, p\<lparr>db_file := disk c, local_conn := Open (detach c)\<rparr>))"
  by (simp add: execute_def connection_cases opened_def split: prod.splits)

lemma fst_execute:
  "fst (execute p sql args) =
     fst (con_execute (attach (db_file p) (handle_of p))
            (case sql of Frags fs \<Rightarrow> join_space fs | Str s \<Rightarrow> s) args)"
  by (simp add: execute_on_handle split: prod.splits)

lemma execute_not_closed_error:
  "\<not> closed (handle_of p) \<Longrightarrow> fst (execute p sql args) \<noteq> Inl closed_error"
  by (simp add: fst_execute con_execute_not_closed_error attach_fields)

section \<open>migrate, seen from the connection\<close>

lemma attach_detach: "attach (disk c) (detach c) = c"
  by (simp add: attach_def detach_def)

lemma conn_of_pool_of: "conn_of (pool_of c) = c"
  by (simp add: conn_of_def pool_of_def connection_cases attach_detach)

lemma opened_pool_of: "opened p = pool_of (conn_of p)"
  by (simp add: opened_def pool_of_def conn_of_def attach_fields detach_attach)

lemma seen_conn_of: "seen p = view (conn_of p)"
  by (simp add: seen_def conn_of_def)

lemma db_file_pool_of: "db_file (pool_of c) = disk c"
  by (simp add: pool_of_def)

lemma disk_conn_of: "disk (conn_of p) = db_file p"
  by (simp add: conn_of_def attach_fields)

lemma store_view: "store c (view c) = c"
  by (simp add: store_def view_def split: option.splits)

lemma pool_update_all: "p\<lparr>db_file := a, local_conn := b\<rparr> = \<lparr>db_file = a, local_conn = b\<rparr>"
  by (cases p) simp

lemma execute_conn:
  "execute p sql args =
     (case con_execute (conn_of p) (case sql of Frags fs \<Rightarrow> join_space fs | Str s \<Rightarrow> s) args of
        (r, c) \<Rightarrow> (r, pool_of c))"
  by (simp add: execute_on_handle conn_of_def pool_of_def split: prod.splits)

lemma version_conn:
  "version p =
     (if closed (conn_of p) then Inl closed_error else Inr (user_version (view (conn_of p))),
      pool_of (conn_of p))"
  by (simp add: version_def adapter_execute_def execute_conn con_execute_def parse_simps store_view)

lemma pool_transaction_conn:
  "pool_transaction p body = map_option (\<lambda>(r, c). (r, pool_of c)) (transaction (conn_of p) body)"
  by (simp add: pool_transaction_def connection_cases on_handle_def conn_of_def opened_def pool_of_def
      pool_update_all)

lemma when_version_conn:
  "when_version n body p =
     (if closed (conn_of p) then Some (Inl closed_error, pool_of (conn_of p))
      else if user_version (view (conn_of p)) \<noteq> n then Some (Inr (), pool_of (conn_of p))
      else map_option (\<lambda>(r, c). (r, pool_of c)) (transaction (conn_of p) body))"
  by (simp add: when_version_def andthen_def version_conn skip_def pool_transaction_conn conn_of_pool_of)

lemma con_execute_in_tx:
  "pending c = Some d \<Longrightarrow> \<not> closed c \<Longrightarrow> parse sql args = Inr st \<Longrightarrow> sql \<noteq> ''BEGIN IMMEDIATE'' \<Longrightarrow>
   con_execute c sql args =
     (case sem st d of Inl e \<Rightarrow> (Inl e, c) | Inr (rows, d') \<Rightarrow> (Inr rows, c\<lparr>pending := Some d'\<rparr>))"
  by (simp add: con_execute_def view_def store_def split: sum.splits)

lemma set_version_in_tx:
  assumes "pending c = Some d" "\<not> closed c"
  shows "set_version ''PRAGMA user_version = 1'' c = (Inr (), c\<lparr>pending := Some (d\<lparr>user_version := 1\<rparr>)\<rparr>)"
    and "set_version ''PRAGMA user_version = 2'' c = (Inr (), c\<lparr>pending := Some (d\<lparr>user_version := 2\<rparr>)\<rparr>)"
    and "set_version ''PRAGMA user_version = 3'' c = (Inr (), c\<lparr>pending := Some (d\<lparr>user_version := 3\<rparr>)\<rparr>)"
  using assms by (simp_all add: set_version_def con_execute_in_tx parse_simps)

lemma step_0_1_in_tx:
  assumes "pending c = Some d" "\<not> closed c"
  shows "step_0_1 env c =
    (case comments d of
       None \<Rightarrow> (Inl (no_table ''comments''), c)
     | Some rows \<Rightarrow>
         (Inr (), c\<lparr>pending := Some (d\<lparr>comments := Some (map (\<lambda>r. r\<lparr>voters := VBlob (bloom env)\<rparr>) rows),
                                        user_version := 1\<rparr>)\<rparr>))"
  using assms
  by (simp add: step_0_1_def con_execute_in_tx parse_simps set_version_in_tx split: option.splits)

lemma step_1_2_in_tx:
  assumes "pending c = Some d" "\<not> closed c"
  shows "step_1_2 env c =
    (case conf env (''general'', ''session-key'') of
       None \<Rightarrow> (Inr (), c\<lparr>pending := Some (d\<lparr>user_version := 2\<rparr>)\<rparr>)
     | Some key \<Rightarrow>
         (case preferences d of
            None \<Rightarrow> (Inl (no_table ''preferences''), c)
          | Some kvs \<Rightarrow>
              (Inr (), c\<lparr>pending := Some (d\<lparr>preferences :=
                   Some (map (\<lambda>(k', v'). if k' = VText ''session-key'' then (k', VText key) else (k', v')) kvs),
                 user_version := 2\<rparr>)\<rparr>)))"
  using assms
  by (simp add: step_1_2_def con_execute_in_tx parse_simps set_version_in_tx split: option.splits)

lemma pending_same: "pending c = Some d \<Longrightarrow> c\<lparr>pending := Some d\<rparr> = c"
  by (cases c) simp

lemma unchanged_ok:
  "pending c = Some d \<Longrightarrow> user_version d = n \<Longrightarrow> \<exists>d2. c = c\<lparr>pending := Some d2\<rparr> \<and> user_version d2 = n"
  by (rule exI [of _ d]) (simp add: pending_same)

lemma step_ok_0_1: "step_ok 0 (\<lambda>c. Some (step_0_1 env c))"
  by (auto simp: step_ok_def step_0_1_in_tx split: option.splits intro: unchanged_ok)

lemma step_ok_1_2: "step_ok 1 (\<lambda>c. Some (step_1_2 env c))"
  by (auto simp: step_ok_def step_1_2_in_tx split: option.splits intro: unchanged_ok)

lemma entered_fields:
  "pending (entered c) = Some (disk c)" "closed (entered c) = closed c"
  "faults (entered c) = tl (faults c)" "disk (entered c) = disk c"
  "refused (entered c) = refused (attempted c)"
  by (simp_all add: entered_def attempted_def refused_def)

lemma entered_left:
  "pending c = None \<Longrightarrow>
   (attempted ((entered c)\<lparr>pending := Some d2\<rparr>))\<lparr>pending := None, disk := d2,
      isolation_level := isolation_level c\<rparr> = (attempted (attempted c))\<lparr>disk := d2\<rparr>"
  by (cases c) (simp add: entered_def attempted_def)

lemma transaction_step:
  assumes ok: "step_ok n body" and c: "\<not> closed c" "pending c = None" "user_version (disk c) = n"
    and f: "\<not> refused c"
    and t: "transaction c body = Some (r, c1)"
  shows "\<exists>r2 d2. body (entered c) = Some (r2, (entered c)\<lparr>pending := Some d2\<rparr>) \<and>
           user_version d2 = (case r2 of Inl _ \<Rightarrow> n | Inr _ \<Rightarrow> n + 1) \<and>
           (r, c1) = leave (isolation_level c) (r2, (entered c)\<lparr>pending := Some d2\<rparr>)"
proof -
  from t c f obtain r2 c2 where b: "body (entered c) = Some (r2, c2)"
    and l: "(r, c1) = leave (isolation_level c) (r2, c2)"
    by (auto simp: transaction_conn)
  from ok [unfolded step_ok_def, rule_format, of "entered c" "disk c"] c b
  obtain d2 where c2: "c2 = (entered c)\<lparr>pending := Some d2\<rparr>"
    and v: "user_version d2 = (case r2 of Inl _ \<Rightarrow> n | Inr _ \<Rightarrow> n + 1)"
    by (auto simp: entered_fields)
  with b l show ?thesis by auto
qed

text \<open>
  What leaving a block does to the connection: it stays open, the file is as
  before the block or the database of the block, and what is not committed is the
  database of the block. A normal end means that the commit went through.
\<close>

lemma leave_outcome:
  assumes "pending c2 = Some d2" "\<not> closed c2" "leave orig (r2, c2) = (r, c1)"
  shows "\<not> closed c1 \<and> (disk c1 = disk c2 \<or> disk c1 = d2) \<and>
         (pending c1 = None \<or> pending c1 = Some d2) \<and>
         (\<forall>u. r = Inr u \<longrightarrow>
            r2 = Inr u \<and> \<not> refused c2 \<and>
            c1 = (attempted c2)\<lparr>pending := None, disk := d2, isolation_level := orig\<rparr>)"
proof (cases "refused c2")
  case True
  from assms(3) show ?thesis
    unfolding leave_refused [OF assms(1,2) True]
    using assms(1,2) by (auto simp: attempted_fields split: option.splits if_splits)
next
  case False
  from assms(3) show ?thesis
    unfolding leave_through [OF assms(1,2) False]
    using assms(1,2) False by (auto simp: attempted_fields split: sum.splits)
qed

lemma when_version_cases [consumes 2, case_names closed other nested locked raised finished]:
  assumes ok: "step_ok n body" and w: "when_version n body p = Some (r, p1)"
  obtains
    (closed) "closed (conn_of p)" "r = Inl closed_error" "p1 = pool_of (conn_of p)"
  | (other) "\<not> closed (conn_of p)" "user_version (view (conn_of p)) \<noteq> n" "r = Inr ()"
      "p1 = pool_of (conn_of p)"
  | (nested) "\<not> closed (conn_of p)" "user_version (view (conn_of p)) = n" "pending (conn_of p) \<noteq> None"
      "r = Inl nested_error" "p1 = pool_of ((conn_of p)\<lparr>isolation_level := Some ''IMMEDIATE''\<rparr>)"
  | (locked) "\<not> closed (conn_of p)" "user_version (disk (conn_of p)) = n" "pending (conn_of p) = None"
      "refused (conn_of p)" "r = Inl locked_error"
      "p1 = pool_of ((attempted (conn_of p))\<lparr>isolation_level := Some ''IMMEDIATE''\<rparr>)"
  | (raised) e d2 c1 where "\<not> closed (conn_of p)" "user_version (disk (conn_of p)) = n"
      "pending (conn_of p) = None" "r = Inl e" "p1 = pool_of c1" "\<not> closed c1"
      "disk c1 = disk (conn_of p) \<or> disk c1 = d2" "pending c1 = None \<or> pending c1 = Some d2"
      "n \<le> user_version d2"
  | (finished) d2 where "\<not> closed (conn_of p)" "user_version (disk (conn_of p)) = n"
      "pending (conn_of p) = None" "\<not> refused (conn_of p)" "\<not> refused (attempted (conn_of p))"
      "r = Inr ()" "p1 = pool_of ((attempted (attempted (conn_of p)))\<lparr>disk := d2\<rparr>)"
      "user_version d2 = n + 1"
      "body (entered (conn_of p)) = Some (Inr (), (entered (conn_of p))\<lparr>pending := Some d2\<rparr>)"
proof -
  let ?c = "conn_of p"
  consider (a) "closed ?c"
    | (b) "\<not> closed ?c" "user_version (view ?c) \<noteq> n"
    | (c) "\<not> closed ?c" "user_version (view ?c) = n" "pending ?c \<noteq> None"
    | (d) "\<not> closed ?c" "user_version (view ?c) = n" "pending ?c = None" "refused ?c"
    | (e) "\<not> closed ?c" "user_version (view ?c) = n" "pending ?c = None" "\<not> refused ?c"
    by blast
  then show thesis
  proof cases
    case a
    with w show thesis by (intro closed) (auto simp: when_version_conn)
  next
    case b
    with w show thesis by (intro other) (auto simp: when_version_conn)
  next
    case c
    with w show thesis by (intro nested) (auto simp: when_version_conn transaction_conn)
  next
    case d
    then have v: "user_version (disk ?c) = n" by (simp add: view_def)
    with w d show thesis by (intro locked) (auto simp: when_version_conn transaction_conn)
  next
    case e
    then have v: "user_version (disk ?c) = n" by (simp add: view_def)
    from w e obtain c1 where t: "transaction ?c body = Some (r, c1)" and p1: "p1 = pool_of c1"
      by (auto simp: when_version_conn)
    let ?e = "entered ?c"
    from transaction_step [OF ok e(1) e(3) v e(4) t]
    obtain r2 d2 where b: "body ?e = Some (r2, ?e\<lparr>pending := Some d2\<rparr>)"
      and d2: "user_version d2 = (case r2 of Inl _ \<Rightarrow> n | Inr _ \<Rightarrow> n + 1)"
      and rc: "leave (isolation_level ?c) (r2, ?e\<lparr>pending := Some d2\<rparr>) = (r, c1)"
      by (elim exE conjE) simp
    have pe: "pending (?e\<lparr>pending := Some d2\<rparr>) = Some d2" "\<not> closed (?e\<lparr>pending := Some d2\<rparr>)"
      using e(1) by (simp_all add: entered_fields)
    note o = leave_outcome [OF pe rc]
    have le: "n \<le> user_version d2" using d2 by (cases r2) simp_all
    show thesis
    proof (cases r)
      case (Inl x)
      from o have "\<not> closed c1" "disk c1 = disk ?c \<or> disk c1 = d2" "pending c1 = None \<or> pending c1 = Some d2"
        by (simp_all add: entered_fields)
      with Inl p1 e v le show thesis by (intro raised [of x c1 d2]) simp_all
    next
      case (Inr u)
      with o have r2: "r2 = Inr u" and nr: "\<not> refused (?e\<lparr>pending := Some d2\<rparr>)"
        and c1: "c1 = (attempted (?e\<lparr>pending := Some d2\<rparr>))\<lparr>pending := None, disk := d2,
                   isolation_level := isolation_level ?c\<rparr>"
        by simp_all
      from c1 have c1': "c1 = (attempted (attempted ?c))\<lparr>disk := d2\<rparr>"
        by (simp add: entered_left [OF e(3)])
      from nr have nr': "\<not> refused (attempted ?c)" by (simp add: refused_update entered_fields)
      from Inr r2 p1 e v b d2 c1' nr' show thesis by (intro finished [of d2]) simp_all
    qed
  qed
qed

lemma le_version_refl: "le_version c c"
  by (simp add: le_version_def)

lemma le_version_trans: "le_version a b \<Longrightarrow> le_version b c \<Longrightarrow> le_version a c"
  by (auto simp: le_version_def)

lemma when_version_mono:
  assumes ok: "step_ok n body" and w: "when_version n body p = Some (r, p1)"
  shows "le_version (conn_of p) (conn_of p1)"
  using ok w
  by (cases rule: when_version_cases)
    (auto simp: conn_of_pool_of le_version_def view_def attempted_fields split: option.splits)

lemma when_version_success:
  assumes ok: "step_ok n body" and w: "when_version n body p = Some (Inr u, p1)"
  shows "p1 = pool_of (conn_of p1) \<and> \<not> closed (conn_of p1) \<and>
         (if user_version (view (conn_of p)) = n
          then pending (conn_of p1) = None \<and> user_version (view (conn_of p1)) = n + 1
          else conn_of p1 = conn_of p)"
  using ok w
  by (cases rule: when_version_cases)
    (auto simp: conn_of_pool_of view_def attempted_fields split: option.splits)

lemma andthen_cases:
  assumes "andthen m f s = Some (r, s')"
  obtains (raised) e where "m s = Some (Inl e, s')" "r = Inl e"
        | (went_on) v s1 where "m s = Some (Inr v, s1)" "f v s1 = Some (r, s')"
  using assms by (auto simp: andthen_def split: option.splits sum.splits prod.splits)

lemma migrate_conn:
  "migrate env to p =
     (if closed (conn_of p) then Some (Inl closed_error, pool_of (conn_of p))
      else if to \<le> user_version (view (conn_of p)) then Some (Inr (), pool_of (conn_of p))
      else steps env (pool_of (conn_of p)))"
  by (simp add: migrate_def andthen_def version_conn skip_def conn_of_pool_of steps_def)

lemma steps_mono:
  assumes ok: "step_ok 2 (step_2_3 env)" and s: "steps env p = Some (r, p1)"
  shows "le_version (conn_of p) (conn_of p1)"
  using s unfolding steps_def
proof (cases rule: andthen_cases)
  case (raised e)
  then show ?thesis using when_version_mono [OF step_ok_0_1] by blast
next
  case (went_on v s1)
  note a = when_version_mono [OF step_ok_0_1 went_on(1)]
  from went_on(2) show ?thesis
  proof (cases rule: andthen_cases)
    case (raised e)
    then show ?thesis using when_version_mono [OF step_ok_1_2] a le_version_trans by blast
  next
    case (went_on v2 s2)
    from when_version_mono [OF step_ok_1_2 went_on(1)] when_version_mono [OF ok went_on(2)] a
    show ?thesis using le_version_trans by blast
  qed
qed

lemma steps_success:
  assumes ok: "step_ok 2 (step_2_3 env)" and s: "steps env p = Some (Inr u, p1)"
  shows "p1 = pool_of (conn_of p1) \<and> \<not> closed (conn_of p1) \<and>
         (if user_version (view (conn_of p)) \<in> {0, 1, 2}
          then pending (conn_of p1) = None \<and> user_version (view (conn_of p1)) = 3
          else conn_of p1 = conn_of p)"
  using s unfolding steps_def
proof (cases rule: andthen_cases)
  case (went_on v s1)
  note a = when_version_success [OF step_ok_0_1 went_on(1)]
  from went_on(2) show ?thesis
  proof (cases rule: andthen_cases)
    case (went_on v2 s2)
    note b = when_version_success [OF step_ok_1_2 went_on(1)]
    note c = when_version_success [OF ok went_on(2)]
    from a b c show ?thesis by (auto split: if_splits)
  qed simp
qed simp

section \<open>The step from 2 to 3 stays inside its transaction\<close>

lemma first_ids: "first (map (\<lambda>r. [VInt (cid r)]) rs) = Inr (map (\<lambda>r. VInt (cid r)) rs)"
  by (induction rs) simp_all

lemma select_children_in_tx:
  assumes "pending c = Some d" "\<not> closed c"
  shows "con_execute c ''SELECT id FROM comments WHERE parent=?'' [x] =
     (case comments d of
        None \<Rightarrow> (Inl (no_table ''comments''), c)
      | Some rows \<Rightarrow>
          (Inr (map (\<lambda>r. [VInt (cid r)]) (filter (\<lambda>r. x \<noteq> VNull \<and> parent r = x) rows)), c))"
  using assms by (simp add: con_execute_in_tx parse_simps pending_same split: option.splits)

lemma select_roots_in_tx:
  assumes "pending c = Some d" "\<not> closed c"
  shows "con_execute c ''SELECT id FROM comments WHERE parent IS NULL'' [] =
     (case comments d of
        None \<Rightarrow> (Inl (no_table ''comments''), c)
      | Some rows \<Rightarrow> (Inr (map (\<lambda>r. [VInt (cid r)]) (filter (\<lambda>r. parent r = VNull) rows)), c))"
  using assms by (simp add: con_execute_in_tx parse_simps pending_same split: option.splits)

lemma update_parent_in_tx:
  assumes "pending c = Some d" "\<not> closed c"
  shows "con_execute c ''UPDATE comments SET parent=? WHERE id=?'' [k, n] =
     (case comments d of
        None \<Rightarrow> (Inl (no_table ''comments''), c)
      | Some rows \<Rightarrow>
          (Inr [], c\<lparr>pending := Some (d\<lparr>comments :=
             Some (map (\<lambda>r. if VInt (cid r) = n then r\<lparr>parent := k\<rparr> else r) rows)\<rparr>)\<rparr>))"
  using assms by (simp add: con_execute_in_tx parse_simps split: option.splits)

lemma collect_in_tx:
  assumes "pending c = Some d" "\<not> closed c" "comments d = Some rows"
  shows "collect c root ids fl =
     (if ids = [] then Some (Inr fl, c)
      else collect c root (butlast ids @ children rows (last ids))
             (update_set root (children rows (last ids)) fl))"
  using assms
  by (subst collect.simps) (simp add: select_children_in_tx first_ids children_def)

lemma collect_keeps_conn:
  assumes "collect c root ids fl = Some y" "pending c = Some d" "\<not> closed c"
  shows "snd y = c"
proof -
  have "\<forall>d. pending c = Some d \<longrightarrow> \<not> closed c \<longrightarrow> snd y = c"
  proof (rule collect.raw_induct
      [where P = "\<lambda>con root ids fl y. \<forall>d. pending con = Some d \<longrightarrow> \<not> closed con \<longrightarrow> snd y = con",
        OF _ assms(1)])
    fix f :: "conn \<Rightarrow> val \<Rightarrow> val list \<Rightarrow> (val \<times> val list) list \<Rightarrow>
              ((error + (val \<times> val list) list) \<times> conn) option"
    fix con root ids flattened y
    assume IH: "\<And>con root ids fl y. f con root ids fl = Some y \<Longrightarrow>
                  \<forall>d. pending con = Some d \<longrightarrow> \<not> closed con \<longrightarrow> snd y = con"
    assume body: "(if ids = [] then Some (Inr flattened, con)
      else case con_execute con ''SELECT id FROM comments WHERE parent=?'' [last ids] of
           (Inl e, con1) \<Rightarrow> Some (Inl e, con1)
         | (Inr rows, con1) \<Rightarrow>
             (case first rows of Inl e \<Rightarrow> Some (Inl e, con1)
              | Inr rv \<Rightarrow> f con1 root (butlast ids @ rv) (update_set root rv flattened))) = Some y"
    show "\<forall>d. pending con = Some d \<longrightarrow> \<not> closed con \<longrightarrow> snd y = con"
    proof (intro allI impI)
      fix d assume d: "pending con = Some d" "\<not> closed con"
      show "snd y = con"
      proof (cases "ids = []")
        case True
        with body show ?thesis by auto
      next
        case False
        show ?thesis
        proof (cases "comments d")
          case None
          with body False d show ?thesis by (auto simp: select_children_in_tx)
        next
          case (Some rows)
          with body False d
          have "f con root (butlast ids @ map (\<lambda>r. VInt (cid r)) (filter (\<lambda>r. last ids \<noteq> VNull \<and> parent r = last ids) rows))
                  (update_set root (map (\<lambda>r. VInt (cid r)) (filter (\<lambda>r. last ids \<noteq> VNull \<and> parent r = last ids) rows)) flattened) = Some y"
            by (simp add: select_children_in_tx first_ids)
          from IH [OF this] d show ?thesis by blast
        qed
      qed
    qed
  qed
  with assms show ?thesis by blast
qed

lemma collect_top_keeps_conn:
  "collect_top c tops fl = Some y \<Longrightarrow> pending c = Some d \<Longrightarrow> \<not> closed c \<Longrightarrow> snd y = c"
proof (induction tops arbitrary: fl)
  case Nil
  then show ?case by auto
next
  case (Cons root tops)
  from Cons.prems(1) obtain r c1 where a: "collect c root [root] fl = Some (r, c1)"
    by (auto split: option.splits)
  from collect_keeps_conn [OF a Cons.prems(2,3)] have c1: "c1 = c" by simp
  show ?case
  proof (cases r)
    case (Inl e)
    with a c1 Cons.prems(1) show ?thesis by auto
  next
    case (Inr fl1)
    with a c1 Cons.prems(1) have "collect_top c tops fl1 = Some y" by simp
    from Cons.IH [OF this Cons.prems(2,3)] show ?thesis .
  qed
qed

lemma update_children_version:
  "pending c = Some d \<Longrightarrow> \<not> closed c \<Longrightarrow>
   \<exists>d1. snd (update_children c root ns) = c\<lparr>pending := Some d1\<rparr> \<and> user_version d1 = user_version d"
proof (induction ns arbitrary: c d)
  case Nil
  then show ?case by (auto intro: unchanged_ok)
next
  case (Cons n ns)
  show ?case
  proof (cases "comments d")
    case None
    with Cons.prems show ?thesis by (auto simp: update_parent_in_tx intro: unchanged_ok)
  next
    case (Some rows)
    let ?d = "d\<lparr>comments := Some (map (\<lambda>r. if VInt (cid r) = n then r\<lparr>parent := root\<rparr> else r) rows)\<rparr>"
    let ?c = "c\<lparr>pending := Some ?d\<rparr>"
    have "pending ?c = Some ?d" "\<not> closed ?c" using Cons.prems by simp_all
    from Cons.IH [OF this] obtain d1 where
      "snd (update_children ?c root ns) = ?c\<lparr>pending := Some d1\<rparr>" "user_version d1 = user_version ?d"
      by blast
    with Some Cons.prems show ?thesis by (auto simp: update_parent_in_tx)
  qed
qed

lemma update_roots_version:
  "pending c = Some d \<Longrightarrow> \<not> closed c \<Longrightarrow>
   \<exists>d1. snd (update_roots env c fl ks) = c\<lparr>pending := Some d1\<rparr> \<and> user_version d1 = user_version d"
proof (induction ks arbitrary: c d)
  case Nil
  then show ?case by (auto intro: unchanged_ok)
next
  case (Cons k ks)
  obtain r c1 where u: "update_children c k (set_order env (lookup fl k)) = (r, c1)"
    by (cases "update_children c k (set_order env (lookup fl k))")
  from update_children_version [OF Cons.prems, of k "set_order env (lookup fl k)"] u
  obtain d1 where c1: "c1 = c\<lparr>pending := Some d1\<rparr>" and v1: "user_version d1 = user_version d"
    by auto
  show ?case
  proof (cases r)
    case (Inl e)
    with u c1 v1 show ?thesis by auto
  next
    case (Inr x)
    have "pending c1 = Some d1" "\<not> closed c1" using c1 Cons.prems by simp_all
    from Cons.IH [OF this] obtain d2 where
      "snd (update_roots env c1 fl ks) = c1\<lparr>pending := Some d2\<rparr>" "user_version d2 = user_version d1"
      by blast
    with Inr u c1 v1 show ?thesis by auto
  qed
qed

lemma step_ok_2_3: "step_ok 2 (step_2_3 env)"
  unfolding step_ok_def
proof (intro allI impI, elim conjE)
  fix c :: conn and d :: db
  assume c: "pending c = Some d" "\<not> closed c" and v: "user_version d = 2"
  show "case step_2_3 env c of None \<Rightarrow> True
        | Some (r, c2) \<Rightarrow> \<exists>d2. c2 = c\<lparr>pending := Some d2\<rparr> \<and>
            user_version d2 = (case r of Inl _ \<Rightarrow> 2 | Inr _ \<Rightarrow> 2 + 1)"
  proof (cases "comments d")
    case None
    with c v show ?thesis
      by (auto simp: step_2_3_def select_roots_in_tx intro: unchanged_ok)
  next
    case (Some rows)
    let ?tops = "map (\<lambda>r. VInt (cid r)) (filter (\<lambda>r. parent r = VNull) rows)"
    have s: "step_2_3 env c =
      (case collect_top c ?tops [] of
         None \<Rightarrow> None
       | Some (Inl e, con2) \<Rightarrow> Some (Inl e, con2)
       | Some (Inr flattened, con2) \<Rightarrow>
           (case update_roots env con2 flattened (keys_order env (map fst flattened)) of
              (Inl e, con3) \<Rightarrow> Some (Inl e, con3)
            | (Inr _, con3) \<Rightarrow> Some (set_version ''PRAGMA user_version = 3'' con3)))"
      using c Some by (simp add: step_2_3_def select_roots_in_tx first_ids)
    show ?thesis
    proof (cases "collect_top c ?tops []")
      case None
      with s show ?thesis by simp
    next
      case (Some y)
      obtain r c1 where y: "y = (r, c1)" by (cases y)
      from collect_top_keeps_conn [OF Some c] y have c1: "c1 = c" by simp
      show ?thesis
      proof (cases r)
        case (Inl e)
        with s Some y c1 c v show ?thesis by (auto intro: unchanged_ok)
      next
        case (Inr fl)
        obtain r3 c3 where u: "update_roots env c fl (keys_order env (map fst fl)) = (r3, c3)"
          by (cases "update_roots env c fl (keys_order env (map fst fl))")
        from update_roots_version [OF c, of env fl "keys_order env (map fst fl)"] u
        obtain d3 where c3: "c3 = c\<lparr>pending := Some d3\<rparr>" and v3: "user_version d3 = user_version d"
          by auto
        have tx3: "pending c3 = Some d3" "\<not> closed c3" using c3 c by simp_all
        show ?thesis
        proof (cases r3)
          case (Inl e)
          with s Some y c1 Inr u c3 v3 v show ?thesis by auto
        next
          case (Inr x)
          with s Some y c1 \<open>r = Inr fl\<close> u c3 v3 v set_version_in_tx(3) [OF tx3]
          show ?thesis by auto
        qed
      qed
    qed
  qed
qed

section \<open>migrate: the version\<close>

lemma steps_noop:
  "\<not> closed c \<Longrightarrow> user_version (view c) \<notin> {0, 1, 2} \<Longrightarrow>
   steps env (pool_of c) = Some (Inr (), pool_of c)"
  by (simp add: steps_def andthen_def when_version_conn conn_of_pool_of)

lemma migrate_le_version:
  assumes "migrate env to p = Some (r, p1)"
  shows "le_version (conn_of p) (conn_of p1)"
proof -
  consider (a) "closed (conn_of p)" | (b) "\<not> closed (conn_of p)" "to \<le> user_version (view (conn_of p))"
    | (c) "\<not> closed (conn_of p)" "\<not> to \<le> user_version (view (conn_of p))" by blast
  then show ?thesis
  proof cases
    case a
    with assms show ?thesis by (auto simp: migrate_conn conn_of_pool_of le_version_refl)
  next
    case b
    with assms show ?thesis by (auto simp: migrate_conn conn_of_pool_of le_version_refl)
  next
    case c
    with assms have "steps env (pool_of (conn_of p)) = Some (r, p1)" by (simp add: migrate_conn)
    from steps_mono [OF step_ok_2_3 this] show ?thesis by (simp add: conn_of_pool_of)
  qed
qed

text \<open>
  C4. Whatever the starting pool and the target, and however the call ends
  (normally or with an exception), the version after \<^verbatim>\<open>migrate\<close> is not below the
  version before it: in the file, as the thread's connection reads it, and as
  \<^verbatim>\<open>self.version\<close> returns it before and after.
\<close>

theorem migrate_never_lowers_version:
  assumes "migrate env to p = Some (r, p1)"
  shows "user_version (db_file p) \<le> user_version (db_file p1) \<and>
         user_version (seen p) \<le> user_version (seen p1) \<and>
         (\<forall>v v1. fst (version p) = Inr v \<and> fst (version p1) = Inr v1 \<longrightarrow> v \<le> v1)"
  using migrate_le_version [OF assms]
  by (auto simp: le_version_def disk_conn_of seen_conn_of version_conn split: if_splits)

lemma migrate_success:
  assumes "migrate env to p = Some (Inr u, p1)"
  shows "p1 = pool_of (conn_of p1) \<and> \<not> closed (conn_of p1) \<and> \<not> closed (conn_of p) \<and>
         (if user_version (view (conn_of p)) < to \<and> user_version (view (conn_of p)) \<in> {0, 1, 2}
          then pending (conn_of p1) = None \<and> user_version (view (conn_of p1)) = 3
          else conn_of p1 = conn_of p)"
proof -
  consider (a) "closed (conn_of p)" | (b) "\<not> closed (conn_of p)" "to \<le> user_version (view (conn_of p))"
    | (c) "\<not> closed (conn_of p)" "\<not> to \<le> user_version (view (conn_of p))" by blast
  then show ?thesis
  proof cases
    case a
    with assms show ?thesis by (auto simp: migrate_conn)
  next
    case b
    with assms show ?thesis by (auto simp: migrate_conn conn_of_pool_of)
  next
    case c
    with assms have "steps env (pool_of (conn_of p)) = Some (Inr u, p1)" by (simp add: migrate_conn)
    from steps_success [OF step_ok_2_3 this] c show ?thesis
      by (auto simp: conn_of_pool_of split: if_splits)
  qed
qed

text \<open>
  C3. When the version read is at or above the target, \<^verbatim>\<open>migrate\<close> returns at
  once: the file and what the connection reads are unchanged. After a call that
  returned normally, a second call with the same target returns normally too and
  leaves the pool, and so the database, exactly as the first call left it.
\<close>

theorem migrate_twice:
  "(\<forall>v p1. version p = (Inr v, p1) \<and> to \<le> v \<longrightarrow>
      migrate env to p = Some (Inr (), p1) \<and> db_file p1 = db_file p \<and> seen p1 = seen p) \<and>
   (\<forall>u p1. migrate env to p = Some (Inr u, p1) \<longrightarrow> migrate env to p1 = Some (Inr (), p1))"
proof (intro conjI allI impI)
  fix v p1 assume a: "version p = (Inr v, p1) \<and> to \<le> v"
  then have p1: "p1 = pool_of (conn_of p)" and c: "\<not> closed (conn_of p)"
    and v: "v = user_version (view (conn_of p))"
    by (auto simp: version_conn split: if_splits)
  with a show "migrate env to p = Some (Inr (), p1)" by (simp add: migrate_conn)
  from p1 show "db_file p1 = db_file p" by (simp add: db_file_pool_of disk_conn_of)
  from p1 show "seen p1 = seen p" by (simp add: seen_conn_of conn_of_pool_of)
next
  fix u p1 assume m: "migrate env to p = Some (Inr u, p1)"
  note s = migrate_success [OF m]
  let ?c = "conn_of p" and ?c1 = "conn_of p1"
  have p1: "p1 = pool_of ?c1" and c1: "\<not> closed ?c1" using s by simp_all
  show "migrate env to p1 = Some (Inr (), p1)"
  proof (cases "to \<le> user_version (view ?c1)")
    case True
    with c1 p1 show ?thesis by (simp add: migrate_conn)
  next
    case False
    have "user_version (view ?c1) \<notin> {0, 1, 2}"
    proof (cases "user_version (view ?c) < to \<and> user_version (view ?c) \<in> {0, 1, 2}")
      case True
      with s show ?thesis by simp
    next
      case no: False
      with s have "?c1 = ?c" by simp
      with no False show ?thesis by auto
    qed
    from steps_noop [OF c1 this, of env] False c1 p1 show ?thesis
      by (simp add: migrate_conn)
  qed
qed

text \<open>
  C5, as the code has it. The target only decides whether \<^verbatim>\<open>migrate\<close> returns at
  once. When the version \<open>v\<close> is below the target, every step from \<open>v\<close> on runs,
  up to \<open>MAX_VERSION\<close>, whatever the target is: a call that returns normally
  leaves version 3 when \<open>v\<close> is 0, 1 or 2 and below the target, and \<open>v\<close>
  otherwise. So the version afterwards is at most \<open>max v MAX_VERSION\<close>, and at
  most \<open>max v to\<close> for a target of at least \<open>MAX_VERSION\<close>, the only one the
  module passes.
\<close>

theorem migrate_runs_to_max_version:
  assumes "migrate env to p = Some (Inr u, p1)"
  shows "user_version (seen p1) =
           (if user_version (seen p) < to \<and> user_version (seen p) \<in> {0, 1, 2} then MAX_VERSION
            else user_version (seen p)) \<and>
         user_version (seen p1) \<le> max (user_version (seen p)) MAX_VERSION \<and>
         (MAX_VERSION \<le> to \<longrightarrow> user_version (seen p1) \<le> max (user_version (seen p)) to)"
  using migrate_success [OF assms]
  by (auto simp: seen_conn_of MAX_VERSION_def split: if_splits)

lemma example_migrate_0_3:
  "map_option (\<lambda>(r, p). (r, user_version (db_file p), user_version (seen p)))
     (migrate example_env 3 (example_pool 0)) = Some (Inr (), 3, 3)"
  by code_simp

lemma example_migrate_0_1:
  "map_option (\<lambda>(r, p). (r, user_version (seen p))) (migrate example_env 1 (example_pool 0)) =
     Some (Inr (), 3)"
  by code_simp

lemma example_seen: "user_version (seen (example_pool v)) = v" "user_version (db_file (example_pool v)) = v"
  by (simp_all add: seen_def handle_of_def connection_def example_pool_def connect_def view_def
      attach_def fresh_def example_db_def)

lemma example_version_3: "version (example_pool 3) = (Inr 3, opened (example_pool 3))"
  by (simp add: version_conn opened_pool_of seen_conn_of [symmetric] example_seen)
    (simp add: conn_of_def attach_def handle_of_def connection_def example_pool_def connect_def fresh_def)

theorem migrate_never_lowers_version_witness:
  "\<exists>r p1. migrate example_env 3 (example_pool 0) = Some (r, p1) \<and>
     user_version (db_file (example_pool 0)) = 0 \<and> user_version (db_file p1) = 3 \<and>
     user_version (db_file (example_pool 0)) \<le> user_version (db_file p1) \<and>
     user_version (seen (example_pool 0)) \<le> user_version (seen p1)"
proof -
  from example_migrate_0_3 obtain p1 where
    m: "migrate example_env 3 (example_pool 0) = Some (Inr (), p1)" and v: "user_version (db_file p1) = 3"
    by auto
  from migrate_never_lowers_version [OF m] m v show ?thesis by (auto simp: example_seen)
qed

theorem migrate_twice_witness:
  "(\<exists>p1. migrate example_env 3 (example_pool 0) = Some (Inr (), p1) \<and>
      migrate example_env 3 p1 = Some (Inr (), p1)) \<and>
   (\<exists>p2. version (example_pool 3) = (Inr 3, p2) \<and>
      migrate example_env 3 (example_pool 3) = Some (Inr (), p2) \<and>
      db_file p2 = db_file (example_pool 3))"
proof -
  from example_migrate_0_3 obtain p1 where
    m: "migrate example_env 3 (example_pool 0) = Some (Inr (), p1)" by auto
  from migrate_twice [of "example_pool 0" 3 example_env] m
  have a: "migrate example_env 3 p1 = Some (Inr (), p1)" by blast
  from migrate_twice [of "example_pool 3" 3 example_env] example_version_3
  have b: "migrate example_env 3 (example_pool 3) = Some (Inr (), opened (example_pool 3)) \<and>
      db_file (opened (example_pool 3)) = db_file (example_pool 3)" by simp
  from m a b example_version_3 show ?thesis by blast
qed

theorem migrate_runs_to_max_version_witness:
  "\<exists>p1. migrate example_env 1 (example_pool 0) = Some (Inr (), p1) \<and>
     user_version (seen (example_pool 0)) = 0 \<and> user_version (seen p1) = MAX_VERSION"
proof -
  from example_migrate_0_1 obtain p1 where
    m: "migrate example_env 1 (example_pool 0) = Some (Inr (), p1)" by auto
  from migrate_runs_to_max_version [OF m] m show ?thesis by (auto simp: example_seen)
qed

theorem migrate_beyond_target_counterexample:
  "map_option (\<lambda>(r, p). (r, user_version (seen p))) (migrate example_env 1 (example_pool 0)) =
     Some (Inr (), 3) \<and>
   user_version (seen (example_pool 0)) = 0 \<and> \<not> (3 :: int) \<le> max 0 1"
  using example_migrate_0_1 by (simp add: example_seen)

section \<open>The step from 1 to 2\<close>

lemma view_store: "view (store c d) = d"
  by (simp add: view_def store_def split: option.splits)

lemma store_fields: "closed (store c d) = closed c" "pending (store c d) = map_option (\<lambda>_. d) (pending c)"
  by (simp_all add: store_def split: option.splits)

lemma execute_stmt:
  assumes "\<not> closed (conn_of p)"
    and "parse (case sql of Frags fs \<Rightarrow> join_space fs | Str s \<Rightarrow> s) args = Inr st"
    and "(case sql of Frags fs \<Rightarrow> join_space fs | Str s \<Rightarrow> s) \<noteq> ''BEGIN IMMEDIATE''"
  shows "execute p sql args =
     (case sem st (seen p) of
        Inl e \<Rightarrow> (Inl e, pool_of (conn_of p))
      | Inr (rows, d) \<Rightarrow> (Inr rows, pool_of (store (conn_of p) d)))"
  using assms by (simp add: execute_conn con_execute_def seen_conn_of split: sum.splits)

lemma not_begin:
  "core_tables_sql \<noteq> ''BEGIN IMMEDIATE''" "join_space trigger_sql \<noteq> ''BEGIN IMMEDIATE''"
  by (simp_all add: core_tables_sql_def trigger_sql_def)

lemma set_session_key_stored:
  "(VText ''session-key'', v) \<in> set kvs \<Longrightarrow>
   (VText ''session-key'', VText key) \<in> set (set_session_key key kvs)"
  by (force simp: set_session_key_def)

lemma step_1_2_entered:
  assumes "\<not> closed c" "pending c = None"
  shows "step_1_2 env (entered c) =
    (case session_key_moved env (disk c) of
       Inl e \<Rightarrow> (Inl e, (entered c)\<lparr>pending := Some (disk c)\<rparr>)
     | Inr d \<Rightarrow> (Inr (), (entered c)\<lparr>pending := Some d\<rparr>))"
proof -
  have e: "pending (entered c) = Some (disk c)" "\<not> closed (entered c)"
    using assms by (simp_all add: entered_fields)
  show ?thesis
    by (simp add: step_1_2_in_tx [OF e] session_key_moved_def set_session_key_def
        pending_same [OF e(1)] split: option.splits)
qed

lemma when_version_1_2:
  assumes c: "\<not> closed (conn_of p)" "pending (conn_of p) = None" "user_version (db_file p) = 1"
  shows "\<exists>r c1 d2. when_version 1 (\<lambda>c. Some (step_1_2 env c)) p = Some (r, pool_of c1) \<and>
           d2 = (case session_key_moved env (db_file p) of Inl _ \<Rightarrow> db_file p | Inr d \<Rightarrow> d) \<and>
           (disk c1 = db_file p \<or> disk c1 = d2) \<and>
           (\<forall>u. r = Inr u \<longrightarrow> disk c1 = d2 \<and> (\<exists>d. session_key_moved env (db_file p) = Inr d)) \<and>
           (\<not> refused (conn_of p) \<and> \<not> refused (attempted (conn_of p)) \<longrightarrow>
              (case session_key_moved env (db_file p) of
                 Inl e \<Rightarrow> r = Inl e
               | Inr d \<Rightarrow> r = Inr ()))"
proof -
  let ?c = "conn_of p"
  let ?m = "session_key_moved env (db_file p)"
  let ?d2 = "case ?m of Inl _ \<Rightarrow> db_file p | Inr d \<Rightarrow> d"
  have v: "user_version (view ?c) = 1" using c by (simp add: view_def disk_conn_of)
  show ?thesis
  proof (cases "refused ?c")
    case True
    with c v have "when_version 1 (\<lambda>c. Some (step_1_2 env c)) p =
        Some (Inl locked_error, pool_of ((attempted ?c)\<lparr>isolation_level := Some ''IMMEDIATE''\<rparr>))"
      by (simp add: when_version_conn transaction_conn)
    with True show ?thesis
      by (intro exI [of _ "Inl locked_error"]
          exI [of _ "(attempted ?c)\<lparr>isolation_level := Some ''IMMEDIATE''\<rparr>"] exI [of _ ?d2])
        (simp add: attempted_fields disk_conn_of)
  next
    case False
    let ?e2 = "(entered ?c)\<lparr>pending := Some ?d2\<rparr>"
    let ?r2 = "case ?m of Inl e \<Rightarrow> Inl e | Inr d \<Rightarrow> Inr ()"
    have b: "step_1_2 env (entered ?c) = (?r2, ?e2)"
      by (simp add: step_1_2_entered [OF c(1,2)] disk_conn_of split: sum.splits)
    obtain r c1 where l: "leave (isolation_level ?c) (?r2, ?e2) = (r, c1)"
      by (cases "leave (isolation_level ?c) (?r2, ?e2)")
    have w: "when_version 1 (\<lambda>c. Some (step_1_2 env c)) p = Some (r, pool_of c1)"
      using c v False by (simp add: when_version_conn transaction_conn b l)
    have pe: "pending ?e2 = Some ?d2" "\<not> closed ?e2" using c(1) by (simp_all add: entered_fields)
    note o = leave_outcome [OF pe l]
    have d: "disk c1 = db_file p \<or> disk c1 = ?d2"
      using o by (simp add: entered_fields disk_conn_of)
    have s: "\<forall>u. r = Inr u \<longrightarrow> disk c1 = ?d2 \<and> (\<exists>d. ?m = Inr d)"
      using o by (auto simp: attempted_fields split: sum.splits)
    have t: "case ?m of Inl e \<Rightarrow> r = Inl e | Inr d \<Rightarrow> r = Inr ()"
      if "\<not> refused (attempted ?c)"
    proof -
      have "\<not> refused ?e2" using that by (simp add: refused_update entered_fields)
      from l [unfolded leave_through [OF pe this]] show ?thesis by (auto split: sum.splits)
    qed
    from w d s t show ?thesis by blast
  qed
qed

text \<open>
  C7, as the code has it. The step from 1 to 2, run on a pool at version 1 with no
  transaction open. Without the option \<^verbatim>\<open>session-key\<close> in \<^verbatim>\<open>[general]\<close> the
  step changes nothing but the version, and raises nothing unless the engine
  refuses its BEGIN IMMEDIATE or its COMMIT. With the option it runs an UPDATE:
  every row of \<^verbatim>\<open>preferences\<close> with the key \<^verbatim>\<open>session-key\<close> takes the configured
  value, so the value is stored under that key when such a row is there, and
  nothing is stored when there is none; without the table the UPDATE raises and
  the file stays as it was. Data and version change in the one transaction: in
  every outcome the file has both (version 2) or neither, and it has both
  whenever the step ends normally.
\<close>

theorem step_1_2_moves_session_key:
  assumes "\<not> closed (conn_of p)" "pending (conn_of p) = None" "user_version (db_file p) = 1"
  shows "\<exists>r p1. when_version 1 (\<lambda>c. Some (step_1_2 env c)) p = Some (r, p1) \<and>
    (conf env (''general'', ''session-key'') = None \<longrightarrow>
       (db_file p1 = db_file p \<or> db_file p1 = (db_file p)\<lparr>user_version := 2\<rparr>) \<and>
       (r = Inr () \<longrightarrow> db_file p1 = (db_file p)\<lparr>user_version := 2\<rparr>) \<and>
       (\<not> refused (conn_of p) \<and> \<not> refused (attempted (conn_of p)) \<longrightarrow> r = Inr ())) \<and>
    (\<forall>key kvs. conf env (''general'', ''session-key'') = Some key \<and>
         preferences (db_file p) = Some kvs \<longrightarrow>
       (db_file p1 = db_file p \<or>
        db_file p1 = (db_file p)\<lparr>preferences := Some (set_session_key key kvs), user_version := 2\<rparr>) \<and>
       (r = Inr () \<longrightarrow>
        db_file p1 = (db_file p)\<lparr>preferences := Some (set_session_key key kvs), user_version := 2\<rparr>) \<and>
       (\<not> refused (conn_of p) \<and> \<not> refused (attempted (conn_of p)) \<longrightarrow> r = Inr ()) \<and>
       (\<forall>v. (VText ''session-key'', v) \<in> set kvs \<longrightarrow>
          (VText ''session-key'', VText key) \<in> set (set_session_key key kvs))) \<and>
    (\<forall>key. conf env (''general'', ''session-key'') = Some key \<and>
         preferences (db_file p) = None \<longrightarrow>
       r \<noteq> Inr () \<and> db_file p1 = db_file p \<and>
       (\<not> refused (conn_of p) \<and> \<not> refused (attempted (conn_of p)) \<longrightarrow>
          r = Inl (no_table ''preferences'')))"
proof -
  from when_version_1_2 [OF assms, of env] obtain r c1 where
    w: "when_version 1 (\<lambda>c. Some (step_1_2 env c)) p = Some (r, pool_of c1)"
    and d: "disk c1 = db_file p \<or>
            disk c1 = (case session_key_moved env (db_file p) of Inl _ \<Rightarrow> db_file p | Inr d \<Rightarrow> d)"
    and s: "\<forall>u. r = Inr u \<longrightarrow>
              disk c1 = (case session_key_moved env (db_file p) of Inl _ \<Rightarrow> db_file p | Inr d \<Rightarrow> d) \<and>
              (\<exists>d. session_key_moved env (db_file p) = Inr d)"
    and t: "\<not> refused (conn_of p) \<and> \<not> refused (attempted (conn_of p)) \<longrightarrow>
              (case session_key_moved env (db_file p) of Inl e \<Rightarrow> r = Inl e | Inr d \<Rightarrow> r = Inr ())"
    by (elim exE conjE) simp
  have a: "(db_file (pool_of c1) = db_file p \<or> db_file (pool_of c1) = (db_file p)\<lparr>user_version := 2\<rparr>) \<and>
       (r = Inr () \<longrightarrow> db_file (pool_of c1) = (db_file p)\<lparr>user_version := 2\<rparr>) \<and>
       (\<not> refused (conn_of p) \<and> \<not> refused (attempted (conn_of p)) \<longrightarrow> r = Inr ())"
    if "conf env (''general'', ''session-key'') = None"
    using that d s t by (simp add: session_key_moved_def db_file_pool_of)
  have b: "(db_file (pool_of c1) = db_file p \<or>
        db_file (pool_of c1) =
          (db_file p)\<lparr>preferences := Some (set_session_key key kvs), user_version := 2\<rparr>) \<and>
       (r = Inr () \<longrightarrow>
        db_file (pool_of c1) =
          (db_file p)\<lparr>preferences := Some (set_session_key key kvs), user_version := 2\<rparr>) \<and>
       (\<not> refused (conn_of p) \<and> \<not> refused (attempted (conn_of p)) \<longrightarrow> r = Inr ()) \<and>
       (\<forall>v. (VText ''session-key'', v) \<in> set kvs \<longrightarrow>
          (VText ''session-key'', VText key) \<in> set (set_session_key key kvs))"
    if "conf env (''general'', ''session-key'') = Some key \<and> preferences (db_file p) = Some kvs"
    for key kvs
    using that d s t by (simp add: session_key_moved_def db_file_pool_of set_session_key_stored)
  have c: "r \<noteq> Inr () \<and> db_file (pool_of c1) = db_file p \<and>
       (\<not> refused (conn_of p) \<and> \<not> refused (attempted (conn_of p)) \<longrightarrow>
          r = Inl (no_table ''preferences''))"
    if "conf env (''general'', ''session-key'') = Some key \<and> preferences (db_file p) = None" for key
    using that d s t by (auto simp: session_key_moved_def db_file_pool_of)
  show ?thesis
    by (rule exI [of _ r], rule exI [of _ "pool_of c1"]) (use w a b c in blast)
qed

lemma example_conn_of:
  "\<not> closed (conn_of (example_pool v))" "pending (conn_of (example_pool v)) = None"
  "\<not> refused (conn_of (example_pool v))" "\<not> refused (attempted (conn_of (example_pool v)))"
  by (simp_all add: conn_of_def attach_def handle_of_def connection_def example_pool_def connect_def
      fresh_def refused_def attempted_def)

theorem step_1_2_moves_session_key_witness:
  "\<exists>p1. when_version 1 (\<lambda>c. Some (step_1_2 example_env c)) (example_pool 1) = Some (Inr (), p1) \<and>
     preferences (db_file p1) = Some [(VText ''session-key'', VText ''secret'')] \<and>
     user_version (db_file p1) = 2"
proof -
  have c: "conf example_env (''general'', ''session-key'') = Some ''secret''"
    by (simp add: example_env_def)
  have k: "preferences (db_file (example_pool 1)) = Some [(VText ''session-key'', VText ''abc'')]"
    by (simp add: example_pool_def example_db_def)
  from step_1_2_moves_session_key [OF example_conn_of(1,2) example_seen(2), of example_env]
  obtain r p1 where w: "when_version 1 (\<lambda>c. Some (step_1_2 example_env c)) (example_pool 1) = Some (r, p1)"
    and g: "\<forall>key kvs. conf example_env (''general'', ''session-key'') = Some key \<and>
         preferences (db_file (example_pool 1)) = Some kvs \<longrightarrow>
       (db_file p1 = db_file (example_pool 1) \<or>
        db_file p1 =
          (db_file (example_pool 1))\<lparr>preferences := Some (set_session_key key kvs), user_version := 2\<rparr>) \<and>
       (r = Inr () \<longrightarrow>
        db_file p1 =
          (db_file (example_pool 1))\<lparr>preferences := Some (set_session_key key kvs), user_version := 2\<rparr>) \<and>
       (\<not> refused (conn_of (example_pool 1)) \<and> \<not> refused (attempted (conn_of (example_pool 1))) \<longrightarrow>
          r = Inr ()) \<and>
       (\<forall>v. (VText ''session-key'', v) \<in> set kvs \<longrightarrow>
          (VText ''session-key'', VText key) \<in> set (set_session_key key kvs))"
    by (elim exE conjE)
  note g1 = g [rule_format, OF conjI [OF c k]]
  from g1 example_conn_of(3,4) [of 1] have r: "r = Inr ()" by simp
  with g1 have "db_file p1 =
      (db_file (example_pool 1))\<lparr>preferences :=
         Some (set_session_key ''secret'' [(VText ''session-key'', VText ''abc'')]), user_version := 2\<rparr>"
    by simp
  with w r show ?thesis by (simp add: set_session_key_def)
qed

theorem session_key_not_stored_counterexample:
  "conf example_env (''general'', ''session-key'') = Some ''secret'' \<and>
   map_option (\<lambda>(r, p). (r, preferences (db_file p), user_version (db_file p)))
     (when_version 1 (\<lambda>c. Some (step_1_2 example_env c)) empty_preferences_pool) =
     Some (Inr (), Some [], 2)"
  by code_simp

section \<open>Construction of the adapter\<close>

lemma catalog_query:
  assumes "\<not> closed (conn_of p)"
  shows "\<exists>rows. adapter_execute p (Frags [core_tables_sql]) [] = (Inr rows, opened p) \<and>
           (fetchone rows = None) = fresh_db (seen p)"
  using assms
  by (simp add: adapter_execute_def execute_stmt [where st = SelectCoreTables] parse_simps not_begin
      seen_conn_of store_view opened_pool_of fetchone_def fresh_db_def)

lemma set_max_version:
  assumes "\<not> closed (conn_of p)"
  shows "discard (\<lambda>q. adapter_execute q (Str ''PRAGMA user_version = 3'') []) p =
           Some (Inr (), pool_of (store (conn_of p) ((seen p)\<lparr>user_version := 3\<rparr>)))"
  using assms
  by (simp add: discard_def adapter_execute_def execute_stmt [where st = "SetVersion 3"] parse_simps)

lemma create_trigger:
  assumes "\<not> closed (conn_of p)"
  shows "discard (\<lambda>q. adapter_execute q (Frags trigger_sql) []) p =
           (case comments (seen p) of
              None \<Rightarrow> Some (Inl (no_table ''main.comments''), pool_of (conn_of p))
            | Some _ \<Rightarrow>
                Some (Inr (), pool_of (store (conn_of p) ((seen p)\<lparr>remove_stale_threads := True\<rparr>))))"
  using assms
  by (simp add: discard_def adapter_execute_def execute_stmt [where st = CreateTrigger] parse_simps
      not_begin split: option.splits)

text \<open>
  C6. \<^verbatim>\<open>Adapter.__init__\<close> on a usable pool. When the catalog shows none of
  \<^verbatim>\<open>threads\<close>, \<^verbatim>\<open>comments\<close>, \<^verbatim>\<open>preferences\<close>, the construction is: the
  collaborators, \<^verbatim>\<open>PRAGMA user_version = 3\<close>, the trigger; \<^verbatim>\<open>migrate\<close> is not
  called, and when the collaborators end normally and leave a table
  \<^verbatim>\<open>comments\<close>, the database afterwards is the one they left but for the version,
  now \<open>MAX_VERSION\<close>, and the trigger: no voters, preferences or parents
  rewritten. When one of the tables is there, the construction is: the
  collaborators, \<^verbatim>\<open>migrate(to=MAX_VERSION)\<close>, the trigger.
\<close>

theorem adapter_init_fresh_or_migrate:
  assumes "\<not> closed (conn_of p)"
  shows "(fresh_db (seen p) \<longrightarrow>
            adapter_init env collaborators p =
              andthen collaborators
                (\<lambda>_. andthen (discard (\<lambda>q. adapter_execute q (Str ''PRAGMA user_version = 3'') []))
                  (\<lambda>_. discard (\<lambda>q. adapter_execute q (Frags trigger_sql) []))) (opened p)) \<and>
         (\<not> fresh_db (seen p) \<longrightarrow>
            adapter_init env collaborators p =
              andthen collaborators
                (\<lambda>_. andthen (migrate env MAX_VERSION)
                  (\<lambda>_. discard (\<lambda>q. adapter_execute q (Frags trigger_sql) []))) (opened p)) \<and>
         (\<forall>u p2. fresh_db (seen p) \<and> collaborators (opened p) = Some (Inr u, p2) \<and>
              \<not> closed (conn_of p2) \<and> comments (seen p2) \<noteq> None \<longrightarrow>
            (\<exists>p3. adapter_init env collaborators p = Some (Inr (), p3) \<and>
               seen p3 = (seen p2)\<lparr>user_version := MAX_VERSION, remove_stale_threads := True\<rparr>))"
proof -
  from catalog_query [OF assms] obtain rows where
    q: "adapter_execute p (Frags [core_tables_sql]) [] = (Inr rows, opened p)"
    and f: "(fetchone rows = None) = fresh_db (seen p)" by (elim exE conjE)
  have a: "adapter_init env collaborators p =
              andthen collaborators
                (\<lambda>_. andthen (discard (\<lambda>q. adapter_execute q (Str ''PRAGMA user_version = 3'') []))
                  (\<lambda>_. discard (\<lambda>q. adapter_execute q (Frags trigger_sql) []))) (opened p)"
    if "fresh_db (seen p)"
  proof -
    have n: "(fetchone rows = None) = True" using f that by simp
    show ?thesis by (simp add: adapter_init_def andthen_def q n)
  qed
  have b: "adapter_init env collaborators p =
              andthen collaborators
                (\<lambda>_. andthen (migrate env MAX_VERSION)
                  (\<lambda>_. discard (\<lambda>q. adapter_execute q (Frags trigger_sql) []))) (opened p)"
    if "\<not> fresh_db (seen p)"
  proof -
    have n: "(fetchone rows = None) = False" using f that by simp
    show ?thesis by (simp add: adapter_init_def andthen_def q n)
  qed
  have c: "\<exists>p3. adapter_init env collaborators p = Some (Inr (), p3) \<and>
               seen p3 = (seen p2)\<lparr>user_version := MAX_VERSION, remove_stale_threads := True\<rparr>"
    if h: "fresh_db (seen p)" "collaborators (opened p) = Some (Inr u, p2)"
      "\<not> closed (conn_of p2)" "comments (seen p2) \<noteq> None" for u p2
  proof -
    let ?p3 = "pool_of (store (conn_of p2) ((seen p2)\<lparr>user_version := 3\<rparr>))"
    have o: "\<not> closed (conn_of ?p3)" "seen ?p3 = (seen p2)\<lparr>user_version := 3\<rparr>"
      using h(3) by (simp_all add: conn_of_pool_of store_fields seen_conn_of view_store)
    from h(4) obtain rs where rs: "comments (seen ?p3) = Some rs" using o(2) by auto
    show ?thesis
      unfolding a [OF h(1)]
      using h(2) set_max_version [OF h(3)] create_trigger [OF o(1)] rs o(2)
      by (simp add: andthen_def seen_conn_of conn_of_pool_of view_store MAX_VERSION_def)
  qed
  from a b c show ?thesis by blast
qed

lemma new_pool_facts:
  "\<not> closed (conn_of new_pool)" "fresh_db (seen new_pool)"
  by (simp_all add: conn_of_def seen_def view_def attach_def handle_of_def connection_def new_pool_def
      connect_def fresh_def fresh_db_def)

lemma new_pool_collaborators:
  "\<exists>p2. example_collaborators (opened new_pool) = Some (Inr (), p2) \<and> \<not> closed (conn_of p2) \<and>
     comments (seen p2) = Some [] \<and> preferences (seen p2) = Some []"
  by (simp add: example_collaborators_def opened_def conn_of_def seen_def view_def attach_def
      handle_of_def connection_def new_pool_def connect_def fresh_def)

lemma example_not_fresh: "\<not> fresh_db (seen (example_pool v))"
  by (simp add: seen_def view_def attach_def handle_of_def connection_def example_pool_def
      connect_def fresh_def fresh_db_def example_db_def)

theorem adapter_init_fresh_or_migrate_witness:
  "\<not> closed (conn_of new_pool) \<and> fresh_db (seen new_pool) \<and>
   (\<exists>p3. adapter_init example_env example_collaborators new_pool = Some (Inr (), p3) \<and>
      user_version (seen p3) = MAX_VERSION \<and> comments (seen p3) = Some [] \<and>
      preferences (seen p3) = Some [] \<and> remove_stale_threads (seen p3)) \<and>
   \<not> fresh_db (seen (example_pool 0)) \<and>
   adapter_init example_env skip (example_pool 0) =
     andthen skip
       (\<lambda>_. andthen (migrate example_env MAX_VERSION)
         (\<lambda>_. discard (\<lambda>q. adapter_execute q (Frags trigger_sql) []))) (opened (example_pool 0))"
proof -
  from new_pool_collaborators obtain p2 where
    p2: "example_collaborators (opened new_pool) = Some (Inr (), p2)" "\<not> closed (conn_of p2)"
      "comments (seen p2) = Some []" "preferences (seen p2) = Some []"
    by (elim exE conjE)
  from adapter_init_fresh_or_migrate [OF new_pool_facts(1), of example_env example_collaborators]
    new_pool_facts(2) p2
  obtain p3 where
    "adapter_init example_env example_collaborators new_pool = Some (Inr (), p3)"
    "seen p3 = (seen p2)\<lparr>user_version := MAX_VERSION, remove_stale_threads := True\<rparr>"
    by (metis option.distinct(1))
  with p2 have a: "\<exists>p3. adapter_init example_env example_collaborators new_pool = Some (Inr (), p3) \<and>
      user_version (seen p3) = MAX_VERSION \<and> comments (seen p3) = Some [] \<and>
      preferences (seen p3) = Some [] \<and> remove_stale_threads (seen p3)"
    by simp
  have b: "adapter_init example_env skip (example_pool 0) =
     andthen skip
       (\<lambda>_. andthen (migrate example_env MAX_VERSION)
         (\<lambda>_. discard (\<lambda>q. adapter_execute q (Frags trigger_sql) []))) (opened (example_pool 0))"
    using adapter_init_fresh_or_migrate [OF example_conn_of(1), of 0 example_env skip]
      example_not_fresh [of 0] by blast
  from new_pool_facts a b example_not_fresh [of 0] show ?thesis by blast
qed

section \<open>The step from 2 to 3: the walk through the replies\<close>

lemma in_children:
  "n \<in> set (children rows x) \<longleftrightarrow> (\<exists>r \<in> set rows. n = VInt (cid r) \<and> parent r = x \<and> x \<noteq> VNull)"
  by (auto simp: children_def)

lemma child_descendant: "n \<in> set (children rows a) \<Longrightarrow> descendant rows a n"
  by (auto simp: in_children intro: descendant.direct)

lemma grandchild_descendant:
  "n \<in> set (children rows m) \<Longrightarrow> descendant rows a m \<Longrightarrow> descendant rows a n"
  by (auto simp: in_children intro: descendant.above)

lemma descendant_cases:
  "descendant rows a n \<Longrightarrow>
   n \<in> set (children rows a) \<or> (\<exists>m. n \<in> set (children rows m) \<and> descendant rows a m)"
  by (induction rule: descendant.induct) (auto simp: in_children)

lemma descendant_is_child: "descendant rows a n \<Longrightarrow> \<exists>x. n \<in> set (children rows x)"
  using descendant_cases by blast

lemma children_ids: "set (children rows x) \<subseteq> ids_of rows"
  by (auto simp: children_def ids_of_def)

lemma same_row:
  "distinct (map cid rows) \<Longrightarrow> r \<in> set rows \<Longrightarrow> r' \<in> set rows \<Longrightarrow> cid r = cid r' \<Longrightarrow> r = r'"
  by (meson distinct_map inj_on_def)

lemma unique_parent:
  "distinct (map cid rows) \<Longrightarrow> n \<in> set (children rows x) \<Longrightarrow> n \<in> set (children rows y) \<Longrightarrow> x = y"
  by (auto simp: in_children dest: same_row)

lemma distinct_children: "distinct (map cid rows) \<Longrightarrow> distinct (children rows x)"
  unfolding children_def
  by (simp add: distinct_map inj_on_def distinct_map_filter)

lemma root_not_child:
  "distinct (map cid rows) \<Longrightarrow> is_root rows R \<Longrightarrow> R \<notin> set (children rows x)"
  by (auto simp: is_root_def in_children dest: same_row)

lemma unique_root:
  assumes d: "distinct (map cid rows)"
  shows "descendant rows a n \<Longrightarrow> is_root rows a \<Longrightarrow> is_root rows R' \<Longrightarrow> descendant rows R' n \<Longrightarrow> a = R'"
proof (induction arbitrary: R' rule: descendant.induct)
  case (direct r)
  have n: "VInt (cid r) \<in> set (children rows a)" using direct.hyps by (auto simp: in_children)
  from descendant_cases [OF direct.prems(3)] show ?case
  proof
    assume "VInt (cid r) \<in> set (children rows R')"
    with n show ?thesis by (rule unique_parent [OF d])
  next
    assume "\<exists>m. VInt (cid r) \<in> set (children rows m) \<and> descendant rows R' m"
    then obtain m where m: "VInt (cid r) \<in> set (children rows m)" "descendant rows R' m" by blast
    from unique_parent [OF d n m(1)] m(2) have "descendant rows R' a" by simp
    with descendant_is_child root_not_child [OF d direct.prems(1)] show ?thesis by blast
  qed
next
  case (above r m)
  have n: "VInt (cid r) \<in> set (children rows m)" using above.hyps by (auto simp: in_children)
  from descendant_cases [OF above.prems(3)] show ?case
  proof
    assume "VInt (cid r) \<in> set (children rows R')"
    from unique_parent [OF d n this] above.hyps(4) have "descendant rows a R'" by simp
    with descendant_is_child root_not_child [OF d above.prems(2)] show ?thesis by blast
  next
    assume "\<exists>m'. VInt (cid r) \<in> set (children rows m') \<and> descendant rows R' m'"
    then obtain m' where m': "VInt (cid r) \<in> set (children rows m')" "descendant rows R' m'" by blast
    from unique_parent [OF d n m'(1)] m'(2) have "descendant rows R' m" by simp
    from above.IH [OF above.prems(1,2) this] show ?thesis .
  qed
qed

lemma walk_inv_init: "is_root rows root \<Longrightarrow> walk_inv rows root [root] {}"
  by (simp add: walk_inv_def)

lemma walk_inv_step:
  assumes d: "distinct (map cid rows)" and r: "is_root rows root"
    and inv: "walk_inv rows root ids P" and ne: "ids \<noteq> []"
  shows "walk_inv rows root (butlast ids @ children rows (last ids)) (insert (last ids) P)"
proof -
  let ?x = "last ids" and ?b = "butlast ids" and ?ch = "children rows (last ids)"
  from inv have di: "distinct ids" and dj: "set ids \<inter> P = {}" and rt: "root \<in> set ids \<union> P"
    and par: "\<forall>n \<in> set ids \<union> P. n = root \<or> (\<exists>m \<in> P. n \<in> set (children rows m))"
    and cl: "\<forall>m \<in> P. set (children rows m) \<subseteq> set ids \<union> P"
    and re: "\<forall>n \<in> set ids \<union> P. n = root \<or> descendant rows root n"
    and un: "set ids \<union> P \<subseteq> insert root (ids_of rows)"
    by (simp_all add: walk_inv_def)
  have ids: "ids = ?b @ [?x]" using ne by simp
  have sids: "set ids = insert ?x (set ?b)" using ne by (metis ids list.simps(15) rotate1.simps(2) set_rotate1)
  have xb: "?x \<notin> set ?b" using di ids by (metis distinct_append disjoint_iff list.set_intros(1))
  have xP: "?x \<notin> P" using dj sids by auto
  have db: "distinct ?b" using di by (rule distinct_butlast)
  have nP: "n \<notin> set ids \<union> P" if n: "n \<in> set ?ch" for n
  proof
    assume a: "n \<in> set ids \<union> P"
    have "n \<noteq> root" using root_not_child [OF d r] n by blast
    with par a obtain m where m: "m \<in> P" "n \<in> set (children rows m)" by blast
    from unique_parent [OF d n m(2)] m(1) xP show False by simp
  qed
  have 1: "distinct (?b @ ?ch)"
    using db distinct_children [OF d] nP sids by auto
  have 2: "set (?b @ ?ch) \<inter> insert ?x P = {}"
    using dj sids xb nP by auto
  have 3: "root \<in> set (?b @ ?ch) \<union> insert ?x P" using rt sids by auto
  have 4: "\<forall>n \<in> set (?b @ ?ch) \<union> insert ?x P. n = root \<or> (\<exists>m \<in> insert ?x P. n \<in> set (children rows m))"
    using par sids by auto
  have 5: "\<forall>m \<in> insert ?x P. set (children rows m) \<subseteq> set (?b @ ?ch) \<union> insert ?x P"
    using cl sids by auto
  have 6: "\<forall>n \<in> set (?b @ ?ch) \<union> insert ?x P. n = root \<or> descendant rows root n"
  proof
    fix n assume n: "n \<in> set (?b @ ?ch) \<union> insert ?x P"
    show "n = root \<or> descendant rows root n"
    proof (cases "n \<in> set ?ch")
      case True
      have "?x = root \<or> descendant rows root ?x" using re sids by auto
      with True show ?thesis by (auto intro: child_descendant grandchild_descendant)
    next
      case False
      with n sids have "n \<in> set ids \<union> P" by auto
      with re show ?thesis by blast
    qed
  qed
  have 7: "set (?b @ ?ch) \<union> insert ?x P \<subseteq> insert root (ids_of rows)"
    using un sids children_ids [of rows ?x] by auto
  from 1 2 3 4 5 6 7 show ?thesis unfolding walk_inv_def by blast
qed

lemma walk_inv_final:
  assumes inv: "walk_inv rows root [] P"
  shows "(\<Union>m \<in> P. set (children rows m)) = {n. descendant rows root n}"
proof -
  from inv have rt: "root \<in> P"
    and cl: "\<forall>m \<in> P. set (children rows m) \<subseteq> P"
    and re: "\<forall>n \<in> P. n = root \<or> descendant rows root n"
    by (simp_all add: walk_inv_def)
  have inP: "descendant rows root n \<Longrightarrow> n \<in> P" for n
  proof (induction rule: descendant.induct)
    case (direct r)
    then have "VInt (cid r) \<in> set (children rows root)" by (auto simp: in_children)
    with cl rt show ?case by blast
  next
    case (above r m)
    then have "VInt (cid r) \<in> set (children rows m)" by (auto simp: in_children)
    with cl above.IH show ?case by blast
  qed
  show ?thesis
  proof (intro equalityI subsetI)
    fix n assume "n \<in> (\<Union>m \<in> P. set (children rows m))"
    then obtain m where m: "m \<in> P" "n \<in> set (children rows m)" by blast
    from re m(1) have "m = root \<or> descendant rows root m" by blast
    with m(2) show "n \<in> {n. descendant rows root n}"
      by (auto intro: child_descendant grandchild_descendant)
  next
    fix n assume "n \<in> {n. descendant rows root n}"
    then have "descendant rows root n" by simp
    from descendant_cases [OF this] rt inP show "n \<in> (\<Union>m \<in> P. set (children rows m))" by blast
  qed
qed

lemma lookup_update_set:
  "lookup (update_set k rv fl) k' = (if k' = k then lookup fl k @ rv else lookup fl k')"
  by (induction fl) auto

lemma keys_update_set: "fst ` set (update_set k rv fl) = insert k (fst ` set fl)"
proof (induction fl)
  case Nil
  show ?case by simp
next
  case (Cons a fl)
  obtain k' s where a: "a = (k', s)" by (cases a)
  show ?case using Cons.IH by (cases "k' = k") (simp_all add: a insert_commute)
qed

lemma collect_total:
  assumes tx: "pending c = Some d" "\<not> closed c" "comments d = Some rows"
    and d: "distinct (map cid rows)" and r: "is_root rows root"
  shows "walk_inv rows root ids P \<Longrightarrow> (\<Union>m \<in> P. set (children rows m)) \<subseteq> set (lookup fl root) \<Longrightarrow>
    \<exists>fl'. collect c root ids fl = Some (Inr fl', c) \<and>
      set (lookup fl' root) = set (lookup fl root) \<union> {n. descendant rows root n} \<and>
      (\<forall>k. k \<noteq> root \<longrightarrow> lookup fl' k = lookup fl k) \<and>
      fst ` set fl' = fst ` set fl \<union> (if ids = [] then {} else {root})"
proof (induction "card (insert root (ids_of rows) - P)" arbitrary: ids P fl rule: less_induct)
  case less
  show ?case
  proof (cases "ids = []")
    case True
    with less.prems walk_inv_final [of rows root P] show ?thesis
      by (auto simp: collect_in_tx [OF tx])
  next
    case False
    let ?x = "last ids"
    let ?ids = "butlast ids @ children rows ?x" and ?P = "insert ?x P"
    let ?fl = "update_set root (children rows ?x) fl"
    have inv: "walk_inv rows root ?ids ?P" using d r less.prems(1) False by (rule walk_inv_step)
    have xin: "?x \<in> insert root (ids_of rows) - P"
      using less.prems(1) False unfolding walk_inv_def
      by (metis Diff_iff IntI UnI1 empty_iff last_in_set subsetD)
    have fin: "finite (insert root (ids_of rows) - P)" by (simp add: ids_of_def)
    have "insert root (ids_of rows) - ?P \<subset> insert root (ids_of rows) - P" using xin by blast
    then have m: "card (insert root (ids_of rows) - ?P) < card (insert root (ids_of rows) - P)"
      using fin by (rule psubset_card_mono [rotated])
    have sub: "(\<Union>m \<in> ?P. set (children rows m)) \<subseteq> set (lookup ?fl root)"
      using less.prems(2) by (auto simp: lookup_update_set)
    from less.hyps [OF m inv sub] obtain fl' where
      c: "collect c root ?ids ?fl = Some (Inr fl', c)"
      and s: "set (lookup fl' root) = set (lookup ?fl root) \<union> {n. descendant rows root n}"
      and o: "\<forall>k. k \<noteq> root \<longrightarrow> lookup fl' k = lookup ?fl k"
      and k: "fst ` set fl' = fst ` set ?fl \<union> (if ?ids = [] then {} else {root})"
      by blast
    have xr: "?x = root \<or> descendant rows root ?x"
      using less.prems(1) False unfolding walk_inv_def by (metis UnI1 last_in_set)
    then have chd: "set (children rows ?x) \<subseteq> {n. descendant rows root n}"
      by (auto intro: child_descendant grandchild_descendant)
    have "collect c root ids fl = Some (Inr fl', c)" using c False by (simp add: collect_in_tx [OF tx])
    moreover have "set (lookup fl' root) = set (lookup fl root) \<union> {n. descendant rows root n}"
      using s chd by (auto simp: lookup_update_set)
    moreover have "\<forall>k. k \<noteq> root \<longrightarrow> lookup fl' k = lookup fl k"
      using o by (simp add: lookup_update_set)
    moreover have "fst ` set fl' = fst ` set fl \<union> (if ids = [] then {} else {root})"
      using k False by (auto simp: keys_update_set)
    ultimately show ?thesis by blast
  qed
qed

lemma collect_top_total:
  assumes tx: "pending c = Some d" "\<not> closed c" "comments d = Some rows"
    and d: "distinct (map cid rows)"
  shows "\<forall>k \<in> set tops. is_root rows k \<Longrightarrow>
    \<exists>fl'. collect_top c tops fl = Some (Inr fl', c) \<and>
      fst ` set fl' = fst ` set fl \<union> set tops \<and>
      (\<forall>k. set (lookup fl' k) =
            set (lookup fl k) \<union> (if k \<in> set tops then {n. descendant rows k n} else {}))"
proof (induction tops arbitrary: fl)
  case Nil
  show ?case by simp
next
  case (Cons root tops)
  have r: "is_root rows root" using Cons.prems by simp
  from collect_total [OF tx d r walk_inv_init [OF r], of fl] obtain fl1 where
    c1: "collect c root [root] fl = Some (Inr fl1, c)"
    and s1: "set (lookup fl1 root) = set (lookup fl root) \<union> {n. descendant rows root n}"
    and o1: "\<forall>k. k \<noteq> root \<longrightarrow> lookup fl1 k = lookup fl k"
    and k1: "fst ` set fl1 = fst ` set fl \<union> {root}"
    by auto
  have "\<forall>k \<in> set tops. is_root rows k" using Cons.prems by simp
  from Cons.IH [OF this, of fl1] obtain fl' where
    c2: "collect_top c tops fl1 = Some (Inr fl', c)"
    and k2: "fst ` set fl' = fst ` set fl1 \<union> set tops"
    and s2: "\<forall>k. set (lookup fl' k) =
            set (lookup fl1 k) \<union> (if k \<in> set tops then {n. descendant rows k n} else {})"
    by blast
  have a: "collect_top c (root # tops) fl = Some (Inr fl', c)" using c1 c2 by simp
  have b: "fst ` set fl' = fst ` set fl \<union> set (root # tops)" using k1 k2 by auto
  have e: "set (lookup fl' k) =
            set (lookup fl k) \<union> (if k \<in> set (root # tops) then {n. descendant rows k n} else {})" for k
  proof (cases "k = root")
    case True
    with s1 s2 show ?thesis by auto
  next
    case False
    with o1 s2 show ?thesis by auto
  qed
  from a b e show ?case by blast
qed

section \<open>The step from 2 to 3: rewriting the parents\<close>

lemma comments_same: "comments d = Some rows \<Longrightarrow> d\<lparr>comments := Some rows\<rparr> = d"
  by (cases d) simp

lemma update_children_in_tx:
  "pending c = Some d \<Longrightarrow> \<not> closed c \<Longrightarrow> comments d = Some rows \<Longrightarrow>
   update_children c k ns =
     (Inr (), c\<lparr>pending := Some (d\<lparr>comments := Some (map (fold (reparent k) ns) rows)\<rparr>)\<rparr>)"
proof (induction ns arbitrary: c d rows)
  case Nil
  then show ?case by (simp add: comments_same pending_same)
next
  case (Cons n ns)
  let ?rows = "map (reparent k n) rows"
  let ?d = "d\<lparr>comments := Some ?rows\<rparr>"
  let ?c = "c\<lparr>pending := Some ?d\<rparr>"
  have s: "con_execute c ''UPDATE comments SET parent=? WHERE id=?'' [k, n] = (Inr [], ?c)"
    using Cons.prems by (simp add: update_parent_in_tx reparent_def [abs_def])
  have "pending ?c = Some ?d" "\<not> closed ?c" "comments ?d = Some ?rows" using Cons.prems by simp_all
  from Cons.IH [OF this] s show ?case by simp
qed

lemma update_roots_in_tx:
  "pending c = Some d \<Longrightarrow> \<not> closed c \<Longrightarrow> comments d = Some rows \<Longrightarrow>
   update_roots env c fl ks =
     (Inr (), c\<lparr>pending := Some (d\<lparr>comments :=
        Some (map (fold (\<lambda>k. fold (reparent k) (set_order env (lookup fl k))) ks) rows)\<rparr>)\<rparr>)"
proof (induction ks arbitrary: c d rows)
  case Nil
  then show ?case by (simp add: comments_same pending_same)
next
  case (Cons k ks)
  let ?rows = "map (fold (reparent k) (set_order env (lookup fl k))) rows"
  let ?d = "d\<lparr>comments := Some ?rows\<rparr>"
  let ?c = "c\<lparr>pending := Some ?d\<rparr>"
  note s = update_children_in_tx [OF Cons.prems, of k "set_order env (lookup fl k)"]
  have "pending ?c = Some ?d" "\<not> closed ?c" "comments ?d = Some ?rows" using Cons.prems by simp_all
  from Cons.IH [OF this] s show ?case by simp
qed

lemma cid_reparent: "cid (fold (reparent k) ns r) = cid r"
  by (induction ns arbitrary: r) (simp_all add: reparent_def)

lemma fold_reparent:
  "fold (reparent k) ns r = (if VInt (cid r) \<in> set ns then r\<lparr>parent := k\<rparr> else r)"
  by (induction ns arbitrary: r) (auto simp: reparent_def)

lemma fold_roots:
  "\<forall>k \<in> set ks. VInt (cid r) \<in> set (S k) \<longrightarrow> k = K \<Longrightarrow>
   fold (\<lambda>k. fold (reparent k) (S k)) ks r =
     (if \<exists>k \<in> set ks. VInt (cid r) \<in> set (S k) then r\<lparr>parent := K\<rparr> else r)"
proof (induction ks arbitrary: r)
  case Nil
  show ?case by simp
next
  case (Cons k ks)
  let ?r = "fold (reparent k) (S k) r"
  have c: "cid ?r = cid r" by (rule cid_reparent)
  have "\<forall>k \<in> set ks. VInt (cid ?r) \<in> set (S k) \<longrightarrow> k = K" using Cons.prems c by simp
  from Cons.IH [OF this] Cons.prems show ?case
    by (auto simp: c fold_reparent)
qed

lemma step_2_3_in_tx:
  assumes tx: "pending c = Some d" "\<not> closed c" "comments d = Some rows"
    and d: "distinct (map cid rows)"
    and ko: "\<forall>xs. set (keys_order env xs) = set xs" and so: "\<forall>xs. set (set_order env xs) = set xs"
  shows "\<exists>rows'. step_2_3 env c =
            Some (Inr (), c\<lparr>pending := Some (d\<lparr>comments := Some rows', user_version := 3\<rparr>)\<rparr>) \<and>
          length rows' = length rows \<and>
          (\<forall>i < length rows.
             (\<forall>R. is_root rows R \<and> descendant rows R (VInt (cid (rows ! i))) \<longrightarrow>
                  rows' ! i = (rows ! i)\<lparr>parent := R\<rparr>) \<and>
             ((\<nexists>R. is_root rows R \<and> descendant rows R (VInt (cid (rows ! i)))) \<longrightarrow>
                  rows' ! i = rows ! i))"
proof -
  let ?tops = "map (\<lambda>r. VInt (cid r)) (filter (\<lambda>r. parent r = VNull) rows)"
  have roots: "\<forall>k \<in> set ?tops. is_root rows k" by (simp add: is_root_def)
  from collect_top_total [OF tx d roots, of "[]"] obtain fl where
    ct: "collect_top c ?tops [] = Some (Inr fl, c)"
    and keys: "fst ` set fl = set ?tops"
    and sets: "\<forall>k. set (lookup fl k) = (if k \<in> set ?tops then {n. descendant rows k n} else {})"
    by auto
  let ?ks = "keys_order env (map fst fl)"
  let ?S = "\<lambda>k. set_order env (lookup fl k)"
  let ?F = "fold (\<lambda>k. fold (reparent k) (?S k)) ?ks"
  let ?rows = "map ?F rows"
  let ?d3 = "d\<lparr>comments := Some ?rows\<rparr>"
  let ?c3 = "c\<lparr>pending := Some ?d3\<rparr>"
  have ks: "set ?ks = {R. is_root rows R}" using ko keys by (auto simp: is_root_def)
  have S: "set (?S k) = {n. descendant rows k n}" if "is_root rows k" for k
    using so sets that by (simp add: is_root_def)
  have ur: "update_roots env c fl ?ks = (Inr (), ?c3)" by (rule update_roots_in_tx [OF tx])
  have "pending ?c3 = Some ?d3" "\<not> closed ?c3" using tx by simp_all
  note sv = set_version_in_tx(3) [OF this]
  have run: "step_2_3 env c =
      Some (Inr (), c\<lparr>pending := Some (d\<lparr>comments := Some ?rows, user_version := 3\<rparr>)\<rparr>)"
    using tx ct ur sv by (simp add: step_2_3_def select_roots_in_tx first_ids)
  have row: "(\<forall>R. is_root rows R \<and> descendant rows R (VInt (cid r)) \<longrightarrow> ?F r = r\<lparr>parent := R\<rparr>) \<and>
             ((\<nexists>R. is_root rows R \<and> descendant rows R (VInt (cid r))) \<longrightarrow> ?F r = r)" for r
  proof (intro conjI allI impI)
    fix R assume R: "is_root rows R \<and> descendant rows R (VInt (cid r))"
    have u: "\<forall>k \<in> set ?ks. VInt (cid r) \<in> set (?S k) \<longrightarrow> k = R"
    proof (intro ballI impI)
      fix k assume k: "k \<in> set ?ks" "VInt (cid r) \<in> set (?S k)"
      then have "is_root rows k" "descendant rows k (VInt (cid r))" using ks S by auto
      from unique_root [OF d this(2) this(1)] R show "k = R" by blast
    qed
    have "\<exists>k \<in> set ?ks. VInt (cid r) \<in> set (?S k)" using R ks S by auto
    with fold_roots [OF u] show "?F r = r\<lparr>parent := R\<rparr>" by simp
  next
    assume n: "\<nexists>R. is_root rows R \<and> descendant rows R (VInt (cid r))"
    have no: "\<not> (\<exists>k \<in> set ?ks. VInt (cid r) \<in> set (?S k))" using n ks S by auto
    then have "\<forall>k \<in> set ?ks. VInt (cid r) \<in> set (?S k) \<longrightarrow> k = VNull" by blast
    from fold_roots [OF this] no show "?F r = r" by simp
  qed
  show ?thesis
    by (rule exI [of _ ?rows]) (use run row in simp)
qed

lemma migrate_at_2:
  assumes c: "\<not> closed (conn_of p)" "pending (conn_of p) = None"
      "\<not> refused (conn_of p)" "\<not> refused (attempted (conn_of p))"
    and v: "user_version (db_file p) = 2" "2 < to"
    and b: "step_2_3 env (entered (conn_of p)) =
              Some (Inr (), (entered (conn_of p))\<lparr>pending := Some d2\<rparr>)"
  shows "migrate env to p = Some (Inr (), pool_of ((attempted (attempted (conn_of p)))\<lparr>disk := d2\<rparr>))"
proof -
  let ?c = "conn_of p"
  let ?e2 = "(entered ?c)\<lparr>pending := Some d2\<rparr>"
  have vv: "user_version (view ?c) = 2" using c v by (simp add: view_def disk_conn_of)
  have pe: "pending ?e2 = Some d2" "\<not> closed ?e2" "\<not> refused ?e2"
    using c by (simp_all add: entered_fields refused_update)
  have w: "when_version 2 (step_2_3 env) (pool_of ?c) =
             Some (Inr (), pool_of ((attempted (attempted ?c))\<lparr>disk := d2\<rparr>))"
    using c vv b
    by (simp add: when_version_conn conn_of_pool_of transaction_conn leave_through [OF pe]
        entered_left)
  show ?thesis
    using c v vv w
    by (simp add: migrate_conn steps_def andthen_def when_version_conn conn_of_pool_of)
qed

lemma root_no_descendant:
  assumes "distinct (map cid rows)" "is_root rows n"
  shows "\<not> descendant rows R n"
  using descendant_is_child [of rows R n] root_not_child [OF assms] by blast

text \<open>
  C1. \<^verbatim>\<open>migrate\<close> on a database at version 2, through a usable connection with no
  transaction open, the engine refusing neither the BEGIN IMMEDIATE nor the
  COMMIT of the step, the ids of \<^verbatim>\<open>comments\<close> distinct and the target above 2,
  whatever the order in which Python walks \<^verbatim>\<open>flattened\<close> and its sets. The call
  returns normally with version 3, and the table has the same rows in the same
  places, where
  \<^item> a comment that descends from a root \<open>R\<close> through parent links, at any depth,
    has \<open>parent = R\<close> and every other field as before;
  \<^item> an entry with no descendants, that is a root without replies, has all its
    fields as before, and so has every other root;
  \<^item> a comment that descends from no root has all its fields as before.
\<close>

theorem migrate_flattens_replies:
  assumes c: "\<not> closed (conn_of p)" "pending (conn_of p) = None"
      "\<not> refused (conn_of p)" "\<not> refused (attempted (conn_of p))"
    and v: "user_version (db_file p) = 2" "2 < to"
    and t: "comments (db_file p) = Some rows" "distinct (map cid rows)"
    and ko: "\<forall>xs. set (keys_order env xs) = set xs" and so: "\<forall>xs. set (set_order env xs) = set xs"
  shows "\<exists>p1 rows'. migrate env to p = Some (Inr (), p1) \<and>
          db_file p1 = (db_file p)\<lparr>comments := Some rows', user_version := 3\<rparr> \<and>
          length rows' = length rows \<and>
          (\<forall>i < length rows.
             (\<forall>R. is_root rows R \<and> descendant rows R (VInt (cid (rows ! i))) \<longrightarrow>
                  rows' ! i = (rows ! i)\<lparr>parent := R\<rparr>) \<and>
             (is_root rows (VInt (cid (rows ! i))) \<longrightarrow> rows' ! i = rows ! i) \<and>
             ((\<nexists>R. is_root rows R \<and> descendant rows R (VInt (cid (rows ! i)))) \<longrightarrow>
                  rows' ! i = rows ! i))"
proof -
  let ?c = "conn_of p"
  have tx: "pending (entered ?c) = Some (db_file p)" "\<not> closed (entered ?c)"
    using c by (simp_all add: entered_fields disk_conn_of)
  from step_2_3_in_tx [OF tx t ko so] obtain rows' where
    b: "step_2_3 env (entered ?c) =
          Some (Inr (), (entered ?c)\<lparr>pending := Some ((db_file p)\<lparr>comments := Some rows', user_version := 3\<rparr>)\<rparr>)"
    and r: "length rows' = length rows"
      "\<forall>i < length rows.
             (\<forall>R. is_root rows R \<and> descendant rows R (VInt (cid (rows ! i))) \<longrightarrow>
                  rows' ! i = (rows ! i)\<lparr>parent := R\<rparr>) \<and>
             ((\<nexists>R. is_root rows R \<and> descendant rows R (VInt (cid (rows ! i)))) \<longrightarrow>
                  rows' ! i = rows ! i)"
    by blast
  have roots: "rows' ! i = rows ! i" if "i < length rows" "is_root rows (VInt (cid (rows ! i)))" for i
  proof -
    have "\<nexists>R. is_root rows R \<and> descendant rows R (VInt (cid (rows ! i)))"
      using root_no_descendant [OF t(2) that(2)] by blast
    with r(2) that(1) show ?thesis by blast
  qed
  from migrate_at_2 [OF c v b] r roots show ?thesis by (auto simp: db_file_pool_of attempted_fields)
qed

lemma example_rows_facts:
  "distinct (map cid example_rows)" "length example_rows = 6"
  "is_root example_rows (VInt 1)"
  "cid (example_rows ! 3) = 4" "cid (example_rows ! 5) = 6"
  "children example_rows (VInt 1) = [VInt 2, VInt 5]"
  "children example_rows (VInt 2) = [VInt 3]"
  "children example_rows (VInt 3) = [VInt 4]"
  "children example_rows (VInt 4) = []"
  "VInt 6 \<notin> set (children example_rows x)"
  "is_root example_rows (VInt 6)"
  "children example_rows (VInt 6) = []"
  by (auto simp: example_rows_def example_row_def is_root_def children_def)

lemma example_descendant: "descendant example_rows (VInt 1) (VInt 4)"
proof -
  have "descendant example_rows (VInt 1) (VInt 2)"
    by (rule child_descendant) (simp add: example_rows_facts)
  then have "descendant example_rows (VInt 1) (VInt 3)"
    by (rule grandchild_descendant [rotated]) (simp add: example_rows_facts)
  then show ?thesis
    by (rule grandchild_descendant [rotated]) (simp add: example_rows_facts)
qed

lemma example_orders:
  "\<forall>xs. set (keys_order example_env xs) = set xs" "\<forall>xs. set (set_order example_env xs) = set xs"
  by (simp_all add: example_env_def)

theorem migrate_flattens_replies_witness:
  "distinct (map cid example_rows) \<and> is_root example_rows (VInt 1) \<and>
   descendant example_rows (VInt 1) (VInt 4) \<and> is_root example_rows (VInt 6) \<and>
   children example_rows (VInt 6) = [] \<and>
   (\<exists>p1 rows'. migrate example_env 3 (example_pool 2) = Some (Inr (), p1) \<and>
      comments (db_file p1) = Some rows' \<and> user_version (db_file p1) = 3 \<and>
      rows' ! 3 = (example_rows ! 3)\<lparr>parent := VInt 1\<rparr> \<and> rows' ! 5 = example_rows ! 5)"
proof -
  have t: "comments (db_file (example_pool 2)) = Some example_rows"
    by (simp add: example_pool_def example_db_def)
  from migrate_flattens_replies [OF example_conn_of example_seen(2) _ t example_rows_facts(1)
      example_orders, of 3]
  obtain p1 rows' where m: "migrate example_env 3 (example_pool 2) = Some (Inr (), p1)"
    and f: "db_file p1 = (db_file (example_pool 2))\<lparr>comments := Some rows', user_version := 3\<rparr>"
    and r: "\<forall>i < length example_rows.
             (\<forall>R. is_root example_rows R \<and> descendant example_rows R (VInt (cid (example_rows ! i))) \<longrightarrow>
                  rows' ! i = (example_rows ! i)\<lparr>parent := R\<rparr>) \<and>
             (is_root example_rows (VInt (cid (example_rows ! i))) \<longrightarrow> rows' ! i = example_rows ! i) \<and>
             ((\<nexists>R. is_root example_rows R \<and> descendant example_rows R (VInt (cid (example_rows ! i)))) \<longrightarrow>
                  rows' ! i = example_rows ! i)"
    by auto
  have a: "rows' ! 3 = (example_rows ! 3)\<lparr>parent := VInt 1\<rparr>"
    using r [rule_format, of 3] example_rows_facts(2,3,4) example_descendant by simp
  have b: "rows' ! 5 = example_rows ! 5"
    using r [rule_format, of 5] example_rows_facts(2,5,11) by simp
  from m f a b example_rows_facts(1,3,11,12) example_descendant show ?thesis by auto
qed

text \<open>
  The tree \<open>1 \<rightarrow> 2 \<rightarrow> 3 \<rightarrow> 4\<close> and \<open>1 \<rightarrow> 5\<close> with the lone root \<open>6\<close>, before and
  after the migration.
\<close>

lemma example_flattened:
  "map (\<lambda>r. (cid r, parent r)) example_rows =
     [(1, VNull), (2, VInt 1), (3, VInt 2), (4, VInt 3), (5, VInt 1), (6, VNull)] \<and>
   map_option (\<lambda>(r, p). (r, map_option (map (\<lambda>r. (cid r, parent r))) (comments (db_file p))))
       (migrate example_env 3 (example_pool 2)) =
     Some (Inr (), Some [(1, VNull), (2, VInt 1), (3, VInt 1), (4, VInt 1), (5, VInt 1), (6, VNull)])"
  by code_simp

section \<open>The pool keeps its handle open\<close>

lemma usable_pool_of: "usable (pool_of c) = (\<not> closed c)"
  by (simp add: usable_def pool_of_def detach_fields)

lemma when_version_closed:
  assumes "step_ok n body" and "when_version n body p = Some (r, p1)"
  shows "p1 = pool_of (conn_of p1) \<and> closed (conn_of p1) = closed (conn_of p)"
  using assms by (cases rule: when_version_cases) (simp_all add: conn_of_pool_of attempted_fields)

lemma steps_closed:
  assumes s: "steps env p = Some (r, p1)"
  shows "p1 = pool_of (conn_of p1) \<and> closed (conn_of p1) = closed (conn_of p)"
  using s unfolding steps_def
proof (cases rule: andthen_cases)
  case (raised e)
  then show ?thesis using when_version_closed [OF step_ok_0_1] by blast
next
  case (went_on v s1)
  note a = when_version_closed [OF step_ok_0_1 went_on(1)]
  from went_on(2) show ?thesis
  proof (cases rule: andthen_cases)
    case (raised e)
    from when_version_closed [OF step_ok_1_2 raised(1)] a show ?thesis by simp
  next
    case (went_on v2 s2)
    from when_version_closed [OF step_ok_1_2 went_on(1)] when_version_closed [OF step_ok_2_3 went_on(2)] a
    show ?thesis by simp
  qed
qed

lemma migrate_closed:
  assumes "migrate env to p = Some (r, p1)"
  shows "p1 = pool_of (conn_of p1) \<and> closed (conn_of p1) = closed (conn_of p)"
proof (cases "\<not> closed (conn_of p) \<and> \<not> to \<le> user_version (view (conn_of p))")
  case True
  with assms have "steps env (pool_of (conn_of p)) = Some (r, p1)" by (simp add: migrate_conn)
  from steps_closed [OF this] show ?thesis by (simp add: conn_of_pool_of)
next
  case False
  with assms show ?thesis by (auto simp: migrate_conn conn_of_pool_of split: if_splits)
qed

lemma reachable_usable: "reachable p \<Longrightarrow> usable p"
proof (induction rule: reachable.induct)
  case (reachable_init d)
  show ?case by (simp add: usable_def)
next
  case (reachable_connect p)
  show ?case by (simp add: usable_def connect_def fresh_def)
next
  case (reachable_close p)
  then show ?case by (cases "local_conn p") (simp_all add: usable_def close_def)
next
  case (reachable_execute p sql args)
  have "\<not> closed (handle_of p)" using reachable_execute.IH by (rule usable_handle_of)
  then show ?case
    using con_execute_closed
    by (auto simp: execute_def connection_cases usable_def detach_fields attach_fields Let_def
        split: prod.splits) (metis attach_fields(3) snd_conv)
next
  case (reachable_transaction p b r p')
  have h: "\<not> closed (handle_of p)" using reachable_transaction.IH by (rule usable_handle_of)
  from reachable_transaction.hyps(2) obtain c' where
    t: "transaction (attach (db_file (opened p)) (handle_of p)) (\<lambda>x. Some (run_block b x)) = Some (r, c')"
    and p': "p' = (opened p)\<lparr>db_file := disk c', local_conn := Open (detach c')\<rparr>"
    by (auto simp: pool_transaction_def connection_cases on_handle_def)
  from transaction_block_closed [OF t] h show ?case
    by (simp add: p' usable_def detach_fields attach_fields)
next
  case (reachable_migrate p env to r p')
  have "\<not> closed (conn_of p)"
    using usable_handle_of [OF reachable_migrate.IH] by (simp add: conn_of_def attach_fields)
  with migrate_closed [OF reachable_migrate.hyps(2)] show ?case
    by (metis usable_pool_of)
next
  case (reachable_other_writer p d)
  then show ?case by (simp add: usable_def)
next
  case (reachable_faults p h fs)
  then show ?case by (simp add: usable_def)
qed


text \<open>
  C10. In every pool a thread gets to through \<^verbatim>\<open>connect\<close>, \<^verbatim>\<open>close\<close>, \<^verbatim>\<open>execute\<close>,
  transaction blocks and \<^verbatim>\<open>migrate\<close>, \<^verbatim>\<open>execute\<close> runs its statement on the handle the
  property \<^verbatim>\<open>connection\<close> returns, and that handle is open: it is the one of
  the slot, or a fresh one when the slot is missing or \<^verbatim>\<open>None\<close>. After a
  \<^verbatim>\<open>close\<close> that found a handle the slot holds \<^verbatim>\<open>None\<close>, and an \<^verbatim>\<open>execute\<close>
  right after it works on a fresh handle and does not fail for a closed database.
\<close>

theorem execute_on_open_handle:
  assumes "reachable p"
  shows "connection p = (handle_of p, opened p) \<and> \<not> closed (handle_of p) \<and>
    (local_conn p = Unset \<or> local_conn p = IsNone \<longrightarrow> handle_of p = fresh) \<and>
    execute p sql args =
      (case con_execute (attach (db_file p) (handle_of p))
              (case sql of Frags fs \<Rightarrow> join_space fs | Str s \<Rightarrow> s) args of
         (r, c) \<Rightarrow> (r, p\<lparr>db_file := disk c, local_conn := Open (detach c)\<rparr>)) \<and>
    fst (execute p sql args) \<noteq> Inl closed_error \<and>
    (\<forall>h. local_conn p = Open h \<longrightarrow>
       close p = (Inr (), p\<lparr>local_conn := IsNone\<rparr>) \<and>
       handle_of (snd (close p)) = fresh \<and>
       fst (execute (snd (close p)) sql args) \<noteq> Inl closed_error)"
proof -
  have open_h: "\<not> closed (handle_of p)"
    using assms by (intro usable_handle_of reachable_usable)
  have ex: "fst (execute p sql args) \<noteq> Inl closed_error"
    using open_h by (rule execute_not_closed_error)
  have after: "fst (execute (snd (close p)) sql args) \<noteq> Inl closed_error"
  proof -
    have "reachable (snd (close p))" using assms by (rule reachable_close)
    then have "\<not> closed (handle_of (snd (close p)))"
      by (intro usable_handle_of reachable_usable)
    then show ?thesis by (rule execute_not_closed_error)
  qed
  show ?thesis
    using open_h ex after
    by (auto simp: connection_cases close_def intro: execute_on_handle)
qed

theorem execute_on_open_handle_witness:
  "reachable (snd (close (connect (example_pool 3)))) \<and>
   local_conn (snd (close (connect (example_pool 3)))) = IsNone \<and>
   handle_of (snd (close (connect (example_pool 3)))) = fresh \<and>
   \<not> closed (handle_of (snd (close (connect (example_pool 3))))) \<and>
   fst (execute (snd (close (connect (example_pool 3)))) (Str ''PRAGMA user_version'') []) \<noteq> Inl closed_error"
proof -
  have r: "reachable (snd (close (connect (example_pool 3))))"
    unfolding example_pool_def by (intro reachable_close reachable_connect reachable_init)
  have n: "local_conn (snd (close (connect (example_pool 3)))) = IsNone"
    by (simp add: close_def connect_def)
  from execute_on_open_handle [OF r, of "Str ''PRAGMA user_version''" "[]"] r n
  show ?thesis by blast
qed

end
